theory Spec2Isabelle
  imports Main "HOL-Library.Sublist" "HOL-Library.AList"
begin



section \<open>Strings of the extension\<close>

text \<open>
  A JavaScript string is a sequence of UTF-16 code units. The model is \<^typ>\<open>string\<close>,
  the sequences of code units below 256 (ASCII and Latin-1). On these code units
  \<open>toLowerCase\<close> and \<open>trim\<close> act character by character, as written below, and
  the result stays below 256.
\<close>

definition is_space :: "char \<Rightarrow> bool" where
  \<comment> \<open>the white space and line terminators of ECMAScript below 256: the class \<open>\s\<close>
      of a regular expression and what \<open>trim\<close> removes\<close>
  "is_space c = (let n = (of_char c :: nat) in (9 \<le> n \<and> n \<le> 13) \<or> n = 32 \<or> n = 160)"

definition is_digit :: "char \<Rightarrow> bool" where
  \<comment> \<open>the class \<open>\d\<close>\<close>
  "is_digit c = (48 \<le> (of_char c :: nat) \<and> (of_char c :: nat) \<le> 57)"

definition is_upper :: "char \<Rightarrow> bool" where
  "is_upper c = (let n = (of_char c :: nat) in
     (65 \<le> n \<and> n \<le> 90) \<or> (192 \<le> n \<and> n \<le> 222 \<and> n \<noteq> 215))"

definition is_lower :: "char \<Rightarrow> bool" where
  \<comment> \<open>the code units that \<open>toUpperCase\<close> maps to another code unit below 256\<close>
  "is_lower c = (let n = (of_char c :: nat) in
     (97 \<le> n \<and> n \<le> 122) \<or> (224 \<le> n \<and> n \<le> 254 \<and> n \<noteq> 247))"

definition lower_char :: "char \<Rightarrow> char" where
  "lower_char c = (if is_upper c then char_of ((of_char c :: nat) + 32) else c)"

definition canon :: "char \<Rightarrow> char" where
  \<comment> \<open>Canonicalize of a regular expression with the \<open>i\<close> flag: the upper-case code unit\<close>
  "canon c = (if is_lower c then char_of ((of_char c :: nat) - 32) else c)"

definition toLowerCase :: "string \<Rightarrow> string" where
  "toLowerCase s = map lower_char s"

definition trim :: "string \<Rightarrow> string" where
  "trim s = rev (dropWhile is_space (rev (dropWhile is_space s)))"

text \<open>
  The same classes over \<^typ>\<open>int\<close>, whose numerals are binary: the equations with which
  concrete inputs are evaluated.
\<close>

lemma is_space_code [code]:
  "is_space c = (let n = (of_char c :: int) in (9 \<le> n \<and> n \<le> 13) \<or> n = 32 \<or> n = 160)"
  unfolding is_space_def Let_def of_nat_of_char[symmetric, where ?'a = int] by simp

lemma is_digit_code [code]:
  "is_digit c = (48 \<le> (of_char c :: int) \<and> (of_char c :: int) \<le> 57)"
  unfolding is_digit_def of_nat_of_char[symmetric, where ?'a = int] by simp

lemma is_upper_code [code]:
  "is_upper c = (let n = (of_char c :: int) in
     (65 \<le> n \<and> n \<le> 90) \<or> (192 \<le> n \<and> n \<le> 222 \<and> n \<noteq> 215))"
  unfolding is_upper_def Let_def of_nat_of_char[symmetric, where ?'a = int] by simp

lemma is_lower_code [code]:
  "is_lower c = (let n = (of_char c :: int) in
     (97 \<le> n \<and> n \<le> 122) \<or> (224 \<le> n \<and> n \<le> 254 \<and> n \<noteq> 247))"
  unfolding is_lower_def Let_def of_nat_of_char[symmetric, where ?'a = int] by simp

lemma lower_char_code [code]:
  "lower_char c = (if is_upper c then char_of ((of_char c :: int) + 32) else c)"
proof -
  have "char_of (int (of_char c) + 32) = char_of ((of_char c :: nat) + 32)"
    by (metis char_of_nat of_nat_add of_nat_numeral)
  then show ?thesis unfolding lower_char_def of_nat_of_char[symmetric, where ?'a = int] by simp
qed

lemma canon_code [code]:
  "canon c = (if is_lower c then char_of ((of_char c :: int) - 32) else c)"
proof (cases "is_lower c")
  case True
  then have "32 \<le> (of_char c :: nat)" unfolding is_lower_def Let_def by arith
  then have "int (of_char c) - 32 = int ((of_char c :: nat) - 32)" by simp
  then have "char_of (int (of_char c) - 32) = char_of ((of_char c :: nat) - 32)"
    by (metis char_of_nat)
  then show ?thesis unfolding canon_def of_nat_of_char[symmetric, where ?'a = int] by simp
next
  case False
  then show ?thesis by (simp add: canon_def)
qed

fun replace_str :: "string \<Rightarrow> string \<Rightarrow> string \<Rightarrow> string" where
  \<comment> \<open>\<open>s.replace(p, r)\<close> with a string pattern: the first occurrence only\<close>
  "replace_str p r [] = (if p = [] then r else [])"
| "replace_str p r (c # t) =
     (if prefix p (c # t) then r @ drop (length p) (c # t) else c # replace_str p r t)"

fun split_on :: "char \<Rightarrow> string \<Rightarrow> string list" where
  \<comment> \<open>\<open>s.split(d)\<close> with a one-character separator \<open>d\<close>\<close>
  "split_on d [] = [[]]"
| "split_on d (c # t) =
     (if c = d then [] # split_on d t
      else (case split_on d t of p # ps \<Rightarrow> (c # p) # ps | [] \<Rightarrow> [[c]]))"

section \<open>Regular expressions\<close>

text \<open>
  The patterns of the sources use literals, character classes under a quantifier
  (greedy or lazy, with bounds), sequencing, one alternation, capture groups and the
  end anchor \<open>$\<close>. A pattern is matched by backtracking: \<open>ms r (cs, s)\<close> lists, in the
  order in which the backtracking matcher tries them, the ways \<open>r\<close> matches a prefix of
  the remaining input \<open>s\<close>; each way is the captures so far and the input left.
\<close>

datatype rx =
    Lit string
  | LitI string
  | Rep bool nat "nat option" "char \<Rightarrow> bool"
  | Seq rx rx
  | Alt rx rx
  | Grp rx
  | Eoi

type_synonym mstate = "string list \<times> string"

definition counts :: "bool \<Rightarrow> nat \<Rightarrow> nat option \<Rightarrow> nat \<Rightarrow> nat list" where
  \<comment> \<open>the repetition counts a quantifier tries, on a run of \<open>n\<close> characters of its class:
      a greedy one from the longest down, a lazy one from the shortest up\<close>
  "counts g m mx n =
     (let hi = (case mx of None \<Rightarrow> n | Some k \<Rightarrow> min k n); ks = [m ..< Suc hi]
      in if g then rev ks else ks)"

fun ms :: "rx \<Rightarrow> mstate \<Rightarrow> mstate list" where
  "ms (Lit l) (cs, s) = (if prefix l s then [(cs, drop (length l) s)] else [])"
| "ms (LitI l) (cs, s) =
     (if length l \<le> length s \<and> map canon (take (length l) s) = map canon l
      then [(cs, drop (length l) s)] else [])"
| "ms (Rep g m mx p) (cs, s) =
     map (\<lambda>k. (cs, drop k s)) (counts g m mx (length (takeWhile p s)))"
| "ms (Seq a b) st = concat (map (ms b) (ms a st))"
| "ms (Alt a b) st = ms a st @ ms b st"
| "ms (Grp a) (cs, s) =
     map (\<lambda>(cs', s'). (cs' @ [take (length s - length s') s], s')) (ms a (cs, s))"
| "ms Eoi (cs, s) = (if s = [] then [(cs, s)] else [])"

fun ci_prefix :: "string \<Rightarrow> string \<Rightarrow> bool" where
  \<comment> \<open>the comparison of \<open>LitI\<close>, character by character, stopping at the first difference\<close>
  "ci_prefix [] s = True"
| "ci_prefix (p # l) [] = False"
| "ci_prefix (p # l) (c # s) =
     (if c = p then ci_prefix l s else if canon c = canon p then ci_prefix l s else False)"

lemma ci_prefix_iff:
  "ci_prefix l s \<longleftrightarrow> length l \<le> length s \<and> map canon (take (length l) s) = map canon l"
  by (induction l s rule: ci_prefix.induct) auto

lemma ms_code [code]:
  "ms (Lit l) (cs, s) = (if prefix l s then [(cs, drop (length l) s)] else [])"
  "ms (LitI l) (cs, s) = (if ci_prefix l s then [(cs, drop (length l) s)] else [])"
  "ms (Rep g m mx p) (cs, s) =
     map (\<lambda>k. (cs, drop k s)) (counts g m mx (length (takeWhile p s)))"
  "ms (Seq a b) st = concat (map (ms b) (ms a st))"
  "ms (Alt a b) st = ms a st @ ms b st"
  "ms (Grp a) (cs, s) =
     map (\<lambda>(cs', s'). (cs' @ [take (length s - length s') s], s')) (ms a (cs, s))"
  "ms Eoi (cs, s) = (if s = [] then [(cs, s)] else [])"
  by (simp_all add: ci_prefix_iff)

fun seqs :: "rx list \<Rightarrow> rx" where
  "seqs [] = Lit []"
| "seqs [r] = r"
| "seqs (r # rs) = Seq r (seqs rs)"

record rmatch =
  pre :: string
  caps :: "string list"
  rest :: string

fun search :: "rx \<Rightarrow> string \<Rightarrow> rmatch option" where
  \<comment> \<open>\<open>s.match(r)\<close> and \<open>r.exec(s)\<close> without the \<open>g\<close> flag: the leftmost position at
      which the pattern matches, and there the first way the matcher finds\<close>
  "search r [] =
     (case ms r ([], []) of
        (cs, s') # _ \<Rightarrow> Some \<lparr>pre = [], caps = cs, rest = s'\<rparr>
      | [] \<Rightarrow> None)"
| "search r (c # t) =
     (case ms r ([], c # t) of
        (cs, s') # _ \<Rightarrow> Some \<lparr>pre = [], caps = cs, rest = s'\<rparr>
      | [] \<Rightarrow> map_option (\<lambda>m. m\<lparr>pre := c # pre m\<rparr>) (search r t))"

definition test :: "rx \<Rightarrow> string \<Rightarrow> bool" where
  "test r s = (search r s \<noteq> None)"

definition replace_rx :: "rx \<Rightarrow> string \<Rightarrow> string \<Rightarrow> string" where
  \<comment> \<open>\<open>s.replace(r, rep)\<close> without the \<open>g\<close> flag\<close>
  "replace_rx r rep s =
     (case search r s of None \<Rightarrow> s | Some m \<Rightarrow> pre m @ rep @ rest m)"


subsection \<open>What a match is, and that a match consumes input\<close>

lemma set_counts:
  "set (counts g m mx n) = {k. m \<le> k \<and> k \<le> n \<and> (case mx of None \<Rightarrow> True | Some b \<Rightarrow> k \<le> b)}"
  by (auto simp: counts_def Let_def split: option.splits)

lemma le_takeWhile_iff:
  "k \<le> length (takeWhile p s) \<longleftrightarrow> k \<le> length s \<and> (\<forall>c\<in>set (take k s). p c)"
proof (induction s arbitrary: k)
  case Nil
  then show ?case by simp
next
  case (Cons a s)
  then show ?case by (cases k) auto
qed

lemma in_ms_Lit: "(cs', s') \<in> set (ms (Lit l) (cs, s)) \<longleftrightarrow> cs' = cs \<and> s = l @ s'"
  by (auto simp: prefix_def)

lemma in_ms_Rep:
  "(cs', s') \<in> set (ms (Rep g m mx p) (cs, s)) \<longleftrightarrow>
     cs' = cs \<and> (\<exists>w. s = w @ s' \<and> (\<forall>c\<in>set w. p c) \<and> m \<le> length w
        \<and> (case mx of None \<Rightarrow> True | Some b \<Rightarrow> length w \<le> b))"
proof -
  have "(\<exists>k. m \<le> k \<and> k \<le> length s \<and> (\<forall>c\<in>set (take k s). p c)
          \<and> (case mx of None \<Rightarrow> True | Some b \<Rightarrow> k \<le> b) \<and> s' = drop k s)
        \<longleftrightarrow> (\<exists>w. s = w @ s' \<and> (\<forall>c\<in>set w. p c) \<and> m \<le> length w
        \<and> (case mx of None \<Rightarrow> True | Some b \<Rightarrow> length w \<le> b))" (is "?L \<longleftrightarrow> ?R")
  proof
    assume ?L
    then obtain k where k: "m \<le> k" "k \<le> length s" "\<forall>c\<in>set (take k s). p c"
      "(case mx of None \<Rightarrow> True | Some b \<Rightarrow> k \<le> b)" "s' = drop k s" by blast
    then have "s = take k s @ s'" "length (take k s) = k" by auto
    with k show ?R by metis
  next
    assume ?R
    then obtain w where w: "s = w @ s'" "\<forall>c\<in>set w. p c" "m \<le> length w"
      "(case mx of None \<Rightarrow> True | Some b \<Rightarrow> length w \<le> b)" by blast
    then have "take (length w) s = w" "drop (length w) s = s'" "length w \<le> length s" by auto
    with w show ?L by metis
  qed
  then show ?thesis
    by (auto simp: set_counts le_takeWhile_iff image_iff)
qed

lemma in_ms_Seq:
  "(cs', s') \<in> set (ms (Seq a b) (cs, s)) \<longleftrightarrow>
     (\<exists>cs1 s1. (cs1, s1) \<in> set (ms a (cs, s)) \<and> (cs', s') \<in> set (ms b (cs1, s1)))"
  by auto

lemma in_ms_Alt: "st' \<in> set (ms (Alt a b) st) \<longleftrightarrow> st' \<in> set (ms a st) \<or> st' \<in> set (ms b st)"
  by auto

lemma in_ms_Grp:
  "(cs', s') \<in> set (ms (Grp a) (cs, s)) \<longleftrightarrow>
     (\<exists>cs''. (cs'', s') \<in> set (ms a (cs, s)) \<and> cs' = cs'' @ [take (length s - length s') s])"
  by (force simp: image_iff)

lemma in_ms_Eoi: "(cs', s') \<in> set (ms Eoi (cs, s)) \<longleftrightarrow> cs' = cs \<and> s = [] \<and> s' = []"
  by auto

lemmas in_ms = in_ms_Lit in_ms_Rep in_ms_Seq in_ms_Alt in_ms_Grp in_ms_Eoi

lemma ms_single:
  assumes "ms r st \<noteq> []" "\<forall>x\<in>set (ms r st). x = y"
  shows "\<exists>xs. ms r st = y # xs"
  using assms by (cases "ms r st") auto


fun minlen :: "rx \<Rightarrow> nat" where
  "minlen (Lit l) = length l"
| "minlen (LitI l) = length l"
| "minlen (Rep g m mx p) = m"
| "minlen (Seq a b) = minlen a + minlen b"
| "minlen (Alt a b) = min (minlen a) (minlen b)"
| "minlen (Grp a) = minlen a"
| "minlen Eoi = 0"

lemma ms_progress:
  "(cs', s') \<in> set (ms r (cs, s)) \<Longrightarrow> length s' + minlen r \<le> length s"
proof (induction r arbitrary: cs s cs' s')
  case (Lit l)
  then show ?case by (auto simp: prefix_def)
next
  case (LitI l)
  then show ?case by (auto split: if_splits)
next
  case (Rep g m mx p)
  then show ?case unfolding in_ms_Rep by (auto simp del: ms.simps)
next
  case (Seq a b)
  from Seq.prems obtain c1 s1 where 1: "(c1, s1) \<in> set (ms a (cs, s))"
    and 2: "(cs', s') \<in> set (ms b (c1, s1))" unfolding in_ms_Seq by blast
  show ?case using Seq.IH(1)[OF 1] Seq.IH(2)[OF 2] by simp
next
  case (Alt a b)
  then show ?case unfolding in_ms_Alt by (fastforce simp del: ms.simps)
next
  case (Grp a)
  then show ?case unfolding in_ms_Grp by (fastforce simp del: ms.simps)
next
  case Eoi
  then show ?case by auto
qed

lemma search_Some:
  "search r s = Some m \<Longrightarrow>
     \<exists>s2. s = pre m @ s2 \<and> (caps m, rest m) \<in> set (ms r ([], s2))"
proof (induction s arbitrary: m)
  case Nil
  then show ?case by (auto split: list.splits)
next
  case (Cons c t)
  show ?case
  proof (cases "ms r ([], c # t)")
    case Nil
    with Cons.prems obtain m' where m': "search r t = Some m'" "m = m'\<lparr>pre := c # pre m'\<rparr>"
      by auto
    from Cons.IH[OF m'(1)] obtain s2 where "t = pre m' @ s2" "(caps m', rest m') \<in> set (ms r ([], s2))"
      by blast
    then show ?thesis using m'(2) by auto
  next
    case (Cons a list)
    then show ?thesis using Cons.prems by (cases a) auto
  qed
qed

lemma search_progress:
  assumes "search r s = Some m"
  shows "length (pre m) + minlen r + length (rest m) \<le> length s"
proof -
  from search_Some[OF assms] obtain s2 where "s = pre m @ s2" "(caps m, rest m) \<in> set (ms r ([], s2))"
    by blast
  then show ?thesis using ms_progress[of "caps m" "rest m" r "[]" s2] by simp
qed

lemma search_shorter: "search r s = Some m \<Longrightarrow> 0 < minlen r \<Longrightarrow> length (rest m) < length s"
  using search_progress[of r s m] by simp

declare ms.simps [simp del] search.simps [simp del]

section \<open>html-parser.js: normalizeLinkedinUrl\<close>

definition rx_trailing_slashes :: rx where
  \<comment> \<open>\<open>/\/+$/\<close>\<close>
  "rx_trailing_slashes = seqs [Rep True 1 None (\<lambda>c. c = CHR ''/''), Eoi]"

definition normalizeLinkedinUrl :: "string \<Rightarrow> string" where
  "normalizeLinkedinUrl url =
     (let url = trim (toLowerCase url);
          url = replace_str ''https://www.linkedin.com'' ''https://linkedin.com'' url;
          url = replace_str ''http://www.linkedin.com'' ''https://linkedin.com'' url;
          url = replace_str ''http://linkedin.com'' ''https://linkedin.com'' url
      in replace_rx rx_trailing_slashes [] url)"



section \<open>html-parser.js: the patterns and the extraction functions\<close>

fun replace_all :: "rx \<Rightarrow> string \<Rightarrow> string \<Rightarrow> string" where
  \<comment> \<open>\<open>s.replace(r, rep)\<close> with the \<open>g\<close> flag: every match, left to right; after an empty
      match the scan moves one character on\<close>
  "replace_all r rep s =
     (case ms r ([], s) of
        (cs, s') # _ \<Rightarrow>
          (if length s' < length s then rep @ replace_all r rep s'
           else rep @ (case s of [] \<Rightarrow> [] | c # t \<Rightarrow> c # replace_all r rep t))
      | [] \<Rightarrow> (case s of [] \<Rightarrow> [] | c # t \<Rightarrow> c # replace_all r rep t))"

declare replace_all.simps [simp del]

definition grp :: "rmatch \<Rightarrow> nat \<Rightarrow> string" where
  \<comment> \<open>\<open>m[k]\<close> for \<open>k \<ge> 1\<close>; every group of the patterns below takes part in every match\<close>
  "grp m k = (case drop (k - 1) (caps m) of g # _ \<Rightarrow> g | [] \<Rightarrow> [])"

definition any_char :: "char \<Rightarrow> bool" where
  \<comment> \<open>the class \<open>[\s\S]\<close>\<close>
  "any_char c = True"

definition is_letter :: "char \<Rightarrow> bool" where
  \<comment> \<open>the class \<open>[a-z]\<close> under the \<open>i\<close> flag\<close>
  "is_letter c = (let n = (of_char c :: nat) in (97 \<le> n \<and> n \<le> 122) \<or> (65 \<le> n \<and> n \<le> 90))"

lemma is_letter_code [code]:
  "is_letter c = (let n = (of_char c :: int) in (97 \<le> n \<and> n \<le> 122) \<or> (65 \<le> n \<and> n \<le> 90))"
  unfolding is_letter_def Let_def of_nat_of_char[symmetric, where ?'a = int] by simp

definition not_quote :: "char \<Rightarrow> bool" where
  \<comment> \<open>the class \<open>[^"]\<close>\<close>
  "not_quote c = (c \<noteq> CHR 0x22)"

definition not_gt :: "char \<Rightarrow> bool" where
  \<comment> \<open>the class \<open>[^>]\<close>\<close>
  "not_gt c = (c \<noteq> CHR ''>'')"

definition not_lt :: "char \<Rightarrow> bool" where
  \<comment> \<open>the class \<open>[^<]\<close>\<close>
  "not_lt c = (c \<noteq> CHR ''<'')"

subsection \<open>extractCsrfToken and decodeHtmlEntities\<close>






subsection \<open>namesFromLinkedinUrl\<close>

definition rx_in_slug :: rx where
  \<comment> \<open>\<^verbatim>\<open>/\/in\/([^/?]+)/\<close>\<close>
  "rx_in_slug = seqs [Lit ''/in/'', Grp (Rep True 1 None (\<lambda>c. c \<noteq> CHR ''/'' \<and> c \<noteq> CHR ''?''))]"

definition rx_id_suffix :: rx where
  \<comment> \<open>\<^verbatim>\<open>/-[a-z]?\d{5,}\d*$/i\<close>\<close>
  "rx_id_suffix = seqs [LitI ''-'', Rep True 0 (Some 1) is_letter, Rep True 5 None is_digit,
     Rep True 0 None is_digit, Eoi]"

definition namesFromLinkedinUrl :: "string \<Rightarrow> string list" where
  "namesFromLinkedinUrl url =
     (case search rx_in_slug url of
        None \<Rightarrow> []
      | Some m \<Rightarrow>
          (let slug = grp m 1;
               slug = replace_rx rx_id_suffix [] slug
           in filter (\<lambda>p. p \<noteq> [] \<and> length p > 1) (split_on (CHR ''-'') slug)))"

subsection \<open>parseCandidatePage and parseSubmissionsTable\<close>

record timeline_entry =
  label :: string
  date :: string

record submission =
  role :: string
  company :: string
  stage :: string
  dates :: string
  owner :: string

datatype jsvalue = Str string | Timeline "timeline_entry list" | Submissions "submission list"

type_synonym jsobject = "(string \<times> jsvalue) list"
  \<comment> \<open>a plain object: its own properties in insertion order; \<open>AList.update\<close> is the
      assignment \<open>data.k = v\<close> and \<open>map_of\<close> the read \<open>data.k\<close>\<close>

definition rx_candidate_id :: rx where
  \<comment> \<open>\<^verbatim>\<open>/\/candidates\/(\d+)/\<close>\<close>
  "rx_candidate_id = seqs [Lit ''/candidates/'', Grp (Rep True 1 None is_digit)]"

definition rx_h1 :: rx where
  \<comment> \<open>\<^verbatim>\<open>/<h1[^>]*>([\s\S]*?)<\/h1>/i\<close>\<close>
  "rx_h1 = seqs [LitI ''<h1'', Rep True 0 None not_gt, LitI ''>'',
     Grp (Rep False 0 None any_char), LitI ''</h1>'']"

definition rx_tag :: rx where
  \<comment> \<open>\<^verbatim>\<open>/<[^>]*>/g\<close>\<close>
  "rx_tag = seqs [Lit ''<'', Rep True 0 None not_gt, Lit ''>'']"

definition rx_dd_after :: "rx list \<Rightarrow> rx" where
  \<comment> \<open>a label pattern followed by \<^verbatim>\<open><\/dt>\s*<dd[^>]*>([\s\S]*?)<\/dd>\<close>, under the \<open>i\<close> flag\<close>
  "rx_dd_after lbl = seqs (lbl @ [LitI ''</dt>'', Rep True 0 None is_space, LitI ''<dd'',
     Rep True 0 None not_gt, LitI ''>'', Grp (Rep False 0 None any_char), LitI ''</dd>''])"

definition rx_sourced_by :: rx where
  \<comment> \<open>\<^verbatim>\<open>/Sourced\s+By<\/dt>\s*<dd[^>]*>([\s\S]*?)<\/dd>/i\<close>\<close>
  "rx_sourced_by = rx_dd_after [LitI ''Sourced'', Rep True 1 None is_space, LitI ''By'']"

definition rx_current_owner :: rx where
  \<comment> \<open>\<^verbatim>\<open>/Current\s+Owner<\/dt>\s*<dd[^>]*>([\s\S]*?)<\/dd>/i\<close>\<close>
  "rx_current_owner = rx_dd_after [LitI ''Current'', Rep True 1 None is_space, LitI ''Owner'']"

definition rx_location :: rx where
  \<comment> \<open>\<^verbatim>\<open>/>\s*Location<\/dt>\s*<dd[^>]*>([\s\S]*?)<\/dd>/i\<close>\<close>
  "rx_location = rx_dd_after [LitI ''>'', Rep True 0 None is_space, LitI ''Location'']"

definition timelineLabels :: "string list" where
  "timelineLabels = [''Sourced'', ''First Engaged'', ''Handed Off'', ''First screened'',
     ''First Submitted'', ''Most Recently Submitted'']"

definition rx_date :: rx where
  \<comment> \<open>\<^verbatim>\<open>\d{1,2}/\d{1,2}/\d{2,4}\<close>\<close>
  "rx_date = seqs [Rep True 1 (Some 2) is_digit, Lit ''/'', Rep True 1 (Some 2) is_digit, Lit ''/'',
     Rep True 2 (Some 4) is_digit]"

definition rx_timeline :: "string \<Rightarrow> rx" where
  \<comment> \<open>\<^verbatim>\<open>new RegExp(escaped + "[\\s\\S]{0,300}?(\\d{1,2}/\\d{1,2}/\\d{2,4})", "i")\<close>: the label
      is escaped, so each of its characters stands for itself\<close>
  "rx_timeline lbl = seqs [LitI lbl, Rep False 0 (Some 300) any_char, Grp rx_date]"

definition rx_linkedin_href :: rx where
  \<comment> \<open>\<^verbatim>\<open>/href="([^"]*linkedin\.com\/in\/[^"]+)"/i\<close>\<close>
  \<open>rx_linkedin_href = seqs [LitI ''href="'',
     Grp (seqs [Rep True 0 None not_quote, LitI ''linkedin.com/in/'', Rep True 1 None not_quote]),
     LitI ''"'']\<close>

definition rx_table :: rx where
  \<comment> \<open>\<^verbatim>\<open>/<table[\s\S]*?>([\s\S]*?)<\/table>/i\<close>\<close>
  "rx_table = seqs [LitI ''<table'', Rep False 0 None any_char, LitI ''>'',
     Grp (Rep False 0 None any_char), LitI ''</table>'']"

definition rowPattern :: rx where
  \<comment> \<open>\<^verbatim>\<open>/<tr[^>]*>([\s\S]*?)<\/tr>/gi\<close>\<close>
  "rowPattern = seqs [LitI ''<tr'', Rep True 0 None not_gt, LitI ''>'',
     Grp (Rep False 0 None any_char), LitI ''</tr>'']"

definition cellPattern :: rx where
  \<comment> \<open>\<^verbatim>\<open>/<td[^>]*>([\s\S]*?)<\/td>/gi\<close>\<close>
  "cellPattern = seqs [LitI ''<td'', Rep True 0 None not_gt, LitI ''>'',
     Grp (Rep False 0 None any_char), LitI ''</td>'']"


definition rx_candidate_href :: rx where
  \<comment> \<open>\<^verbatim>\<open>/href="(\/candidates\/\d+)"/\<close>\<close>
  \<open>rx_candidate_href = seqs [Lit ''href="'', Grp (seqs [Lit ''/candidates/'', Rep True 1 None is_digit]),
     Lit ''"'']\<close>

definition rx_owner_select :: rx where
  \<comment> \<open>\<^verbatim>\<open>/<select[^>]*name="candidate\[candidate_owner_id\]"[^>]*>([\s\S]*?)<\/select>/i\<close>\<close>
  \<open>rx_owner_select = seqs [LitI ''<select'', Rep True 0 None not_gt,
     LitI ''name="candidate[candidate_owner_id]"'', Rep True 0 None not_gt, LitI ''>'',
     Grp (Rep False 0 None any_char), LitI ''</select>'']\<close>

definition optionPattern :: rx where
  \<comment> \<open>\<^verbatim>\<open>/<option[^>]*value="(\d+)"[^>]*>([^<]*)<\/option>/gi\<close>\<close>
  \<open>optionPattern = seqs [LitI ''<option'', Rep True 0 None not_gt, LitI ''value="'',
     Grp (Rep True 1 None is_digit), LitI ''"'', Rep True 0 None not_gt, LitI ''>'',
     Grp (Rep True 0 None not_lt), LitI ''</option>'']\<close>

lemma minlen_patterns:
  "0 < minlen rowPattern" "0 < minlen cellPattern" "0 < minlen optionPattern"
  by (simp_all add: rowPattern_def cellPattern_def optionPattern_def)

definition strip_tags_trim :: "string \<Rightarrow> string" where
  \<comment> \<open>\<^verbatim>\<open>.replace(/<[^>]*>/g, "").trim()\<close>\<close>
  "strip_tags_trim s = trim (replace_all rx_tag [] s)"

function cells_loop :: "string \<Rightarrow> string list" where
  \<comment> \<open>the inner \<open>while\<close> of parseSubmissionsTable: \<open>cellPattern.exec\<close> on what is left of
      the row, each cell pushed in turn\<close>
  "cells_loop rowHtml =
     (case search cellPattern rowHtml of
        None \<Rightarrow> []
      | Some m \<Rightarrow> strip_tags_trim (grp m 1) # cells_loop (rest m))"
  by pat_completeness auto
termination
  by (relation "measure length") (auto simp: search_shorter minlen_patterns)

declare cells_loop.simps [simp del]

function submission_rows :: "string \<Rightarrow> bool \<Rightarrow> submission list" where
  \<comment> \<open>the outer \<open>while\<close> of parseSubmissionsTable, on what is left of the table and
      the flag \<open>isFirst\<close>\<close>
  "submission_rows tableHtml isFirst =
     (case search rowPattern tableHtml of
        None \<Rightarrow> []
      | Some m \<Rightarrow>
          (if isFirst then submission_rows (rest m) False
           else (let cells = cells_loop (grp m 1) in
                 if length cells \<ge> 5
                 then \<lparr>role = cells ! 0, company = cells ! 1, stage = cells ! 2,
                        dates = cells ! 3, owner = cells ! 4\<rparr> # submission_rows (rest m) False
                 else submission_rows (rest m) False)))"
  by pat_completeness auto
termination
  by (relation "measure (\<lambda>(s, b). length s)") (auto simp: search_shorter minlen_patterns)

declare submission_rows.simps [simp del]

definition parseSubmissionsTable :: "string \<Rightarrow> submission list" where
  "parseSubmissionsTable html =
     (case search rx_table html of
        None \<Rightarrow> []
      | Some m \<Rightarrow> submission_rows (grp m 1) True)"

text \<open>
  parseCandidatePage fills the object \<open>data\<close> block by block; each block of the source is
  one step here, from the object so far to the object after the block.
\<close>

definition page_id :: "string \<Rightarrow> jsobject \<Rightarrow> jsobject" where
  \<comment> \<open>\<^verbatim>\<open>data.id = cidMatch ? cidMatch[1] : ""\<close>\<close>
  "page_id finalUrl data =
     AList.update ''id''
       (Str (case search rx_candidate_id finalUrl of Some m \<Rightarrow> grp m 1 | None \<Rightarrow> [])) data"

definition page_name :: "string \<Rightarrow> jsobject \<Rightarrow> jsobject" where
  "page_name html data =
     (case search rx_h1 html of
        Some m \<Rightarrow> AList.update ''name'' (Str (strip_tags_trim (grp m 1))) data
      | None \<Rightarrow> data)"

definition page_sourced_by :: "string \<Rightarrow> jsobject \<Rightarrow> jsobject" where
  "page_sourced_by html data =
     (case search rx_sourced_by html of
        Some m \<Rightarrow> (let sourcedByText = strip_tags_trim (grp m 1) in
                   if sourcedByText \<noteq> [] then AList.update ''sourced_by'' (Str sourcedByText) data
                   else data)
      | None \<Rightarrow> data)"

definition page_current_owner :: "string \<Rightarrow> jsobject \<Rightarrow> jsobject" where
  "page_current_owner html data =
     (case search rx_current_owner html of
        Some m \<Rightarrow> (let ownerText = strip_tags_trim (grp m 1) in
                   if ownerText \<noteq> [] then AList.update ''current_owner'' (Str ownerText) data
                   else data)
      | None \<Rightarrow> data)"

definition page_location :: "string \<Rightarrow> jsobject \<Rightarrow> jsobject" where
  "page_location html data =
     (case search rx_location html of
        Some m \<Rightarrow> (let loc = strip_tags_trim (grp m 1) in
                   if loc \<noteq> [] \<and> loc \<noteq> ''N/A'' then AList.update ''location'' (Str loc) data
                   else data)
      | None \<Rightarrow> data)"

definition page_timeline :: "string \<Rightarrow> jsobject \<Rightarrow> jsobject" where
  "page_timeline html data =
     AList.update ''timeline''
       (Timeline (map (\<lambda>lbl. \<lparr>label = lbl,
           date = (case search (rx_timeline lbl) html of Some m \<Rightarrow> grp m 1 | None \<Rightarrow> ''N/A'')\<rparr>)
         timelineLabels)) data"

definition page_linkedin_url :: "string \<Rightarrow> jsobject \<Rightarrow> jsobject" where
  "page_linkedin_url html data =
     (case search rx_linkedin_href html of
        Some m \<Rightarrow> AList.update ''linkedin_url'' (Str (grp m 1)) data
      | None \<Rightarrow> data)"

definition parseCandidatePage :: "string \<Rightarrow> string \<Rightarrow> jsobject" where
  "parseCandidatePage html finalUrl =
     (let data = [];
          data = page_id finalUrl data;
          data = AList.update ''url'' (Str finalUrl) data;
          data = page_name html data;
          data = page_sourced_by html data;
          data = page_current_owner html data;
          data = page_location html data;
          data = page_timeline html data;
          data = page_linkedin_url html data;
          data = AList.update ''submissions'' (Submissions (parseSubmissionsTable html)) data
      in data)"

subsection \<open>findLinkedInMatchInSearchResults and findOwnerIdForEmail\<close>

function find_row_loop :: "string \<Rightarrow> string \<Rightarrow> bool \<Rightarrow> string option" where
  \<comment> \<open>the \<open>while\<close> of findLinkedInMatchInSearchResults; \<open>None\<close> is \<open>null\<close>\<close>
  "find_row_loop normalizedTarget tableHtml isFirst =
     (case search rowPattern tableHtml of
        None \<Rightarrow> None
      | Some m \<Rightarrow>
          (if isFirst then find_row_loop normalizedTarget (rest m) False
           else (let rowHtml = grp m 1 in
                 case search rx_linkedin_href rowHtml of
                   None \<Rightarrow> find_row_loop normalizedTarget (rest m) False
                 | Some liMatch \<Rightarrow>
                     (if normalizeLinkedinUrl (grp liMatch 1) = normalizedTarget
                      then (case search rx_candidate_href rowHtml of
                              Some candMatch \<Rightarrow> Some (grp candMatch 1)
                            | None \<Rightarrow> find_row_loop normalizedTarget (rest m) False)
                      else find_row_loop normalizedTarget (rest m) False))))"
  by pat_completeness auto
termination
  by (relation "measure (\<lambda>(t, s, b). length s)") (auto simp: search_shorter minlen_patterns)

declare find_row_loop.simps [simp del]

definition findLinkedInMatchInSearchResults :: "string \<Rightarrow> string \<Rightarrow> string option" where
  "findLinkedInMatchInSearchResults html targetLinkedinUrl =
     (let normalizedTarget = normalizeLinkedinUrl targetLinkedinUrl in
      case search rx_table html of
        None \<Rightarrow> None
      | Some tableMatch \<Rightarrow> find_row_loop normalizedTarget (grp tableMatch 1) True)"

function options_loop :: "string \<Rightarrow> string \<Rightarrow> string" where
  \<comment> \<open>the \<open>while\<close> of findOwnerIdForEmail, on what is left of the select's content\<close>
  "options_loop opts email =
     (case search optionPattern opts of
        None \<Rightarrow> []
      | Some m \<Rightarrow>
          (if toLowerCase (trim (grp m 2)) = toLowerCase email then grp m 1
           else options_loop (rest m) email))"
  by pat_completeness auto
termination
  by (relation "measure (\<lambda>(s, e). length s)") (auto simp: search_shorter minlen_patterns)

declare options_loop.simps [simp del]

definition findOwnerIdForEmail :: "string \<Rightarrow> string \<Rightarrow> string" where
  "findOwnerIdForEmail html email =
     (if email = [] then []
      else (case search rx_owner_select html of
              None \<Rightarrow> []
            | Some selectMatch \<Rightarrow> options_loop (grp selectMatch 1) email))"


section \<open>Auxiliary notions of the statements\<close>

subsection \<open>For normalizeLinkedinUrl\<close>

definition strip_slashes :: "string \<Rightarrow> string" where
  "strip_slashes s = rev (dropWhile (\<lambda>c. c = CHR ''/'') (rev s))"

definition p1 :: string where "p1 = ''https://www.linkedin.com''"

definition p2 :: string where "p2 = ''http://www.linkedin.com''"

definition p3 :: string where "p3 = ''http://linkedin.com''"

definition hc :: string where "hc = ''https://linkedin.com''"

definition hosts_replaced :: "string \<Rightarrow> string" where
  "hosts_replaced w = replace_str p3 hc (replace_str p2 hc (replace_str p1 hc w))"

definition nohost :: "string \<Rightarrow> bool" where
  "nohost s = (\<not> sublist p1 s \<and> \<not> sublist p2 s \<and> \<not> sublist p3 s)"


subsection \<open>For namesFromLinkedinUrl\<close>

definition long_part :: "string \<Rightarrow> bool" where
  \<comment> \<open>the filter of namesFromLinkedinUrl: \<^verbatim>\<open>(p) => p && p.length > 1\<close>\<close>
  "long_part p = (p \<noteq> [] \<and> length p > 1)"

definition id_token :: "string \<Rightarrow> bool" where
  \<comment> \<open>at most one letter, then five or more digits: what \<^verbatim>\<open>[a-z]?\d{5,}\d*\<close> matches\<close>
  "id_token t =
     ((5 \<le> length t \<and> list_all is_digit t)
      \<or> (case t of [] \<Rightarrow> False | c # r \<Rightarrow> is_letter c \<and> 5 \<le> length r \<and> list_all is_digit r))"

definition is_alnum :: "char \<Rightarrow> bool" where
  "is_alnum c = (is_letter c \<or> is_digit c)"

definition tokensFromSlug_spec :: "string \<Rightarrow> string list" where
  \<comment> \<open>The derivation as the specification words it: the final path segment of the URL,
      without a trailing hyphen and alphanumeric token of 5 or more characters, split
      on hyphens, tokens of length at most 1 discarded. (The token after the last
      hyphen holds no hyphen, so the suffix is dropped here as the last part.)\<close>
  "tokensFromSlug_spec url =
     (let segment = last (split_on (CHR ''/'') url);
          parts = split_on (CHR ''-'') segment;
          parts = (if 2 \<le> length parts \<and> 5 \<le> length (last parts) \<and> list_all is_alnum (last parts)
                   then butlast parts else parts)
      in filter (\<lambda>p. length p > 1) parts)"


subsection \<open>For extractCsrfToken\<close>







subsection \<open>For parseCandidatePage\<close>

definition date_token :: "string \<Rightarrow> bool" where
  \<comment> \<open>the shape \<^verbatim>\<open>\d{1,2}/\d{1,2}/\d{2,4}\<close>\<close>
  "date_token d =
     (case split_on (CHR ''/'') d of
        [a, b, c] \<Rightarrow>
          list_all is_digit a \<and> 1 \<le> length a \<and> length a \<le> 2
          \<and> list_all is_digit b \<and> 1 \<le> length b \<and> length b \<le> 2
          \<and> list_all is_digit c \<and> 2 \<le> length c \<and> length c \<le> 4
      | _ \<Rightarrow> False)"

definition contains_ci :: "string \<Rightarrow> string \<Rightarrow> bool" where
  \<comment> \<open>\<open>l\<close> occurs in \<open>s\<close>, letters compared without their case\<close>
  "contains_ci l s = sublist (map canon l) (map canon s)"

definition rx_candidate_url_end :: rx where
  \<comment> \<open>\<^verbatim>\<open>/\/candidates\/\d+$/\<close> (parker-client.js)\<close>
  "rx_candidate_url_end = seqs [Lit ''/candidates/'', Rep True 1 None is_digit, Eoi]"

definition rx_candidate_url :: rx where
  \<comment> \<open>\<^verbatim>\<open>/\/candidates\/\d+/\<close> (parker-client.js)\<close>
  "rx_candidate_url = seqs [Lit ''/candidates/'', Rep True 1 None is_digit]"


definition timeline_of :: "string \<Rightarrow> timeline_entry list" where
  \<comment> \<open>the value that parseCandidatePage stores under \<open>timeline\<close>\<close>
  "timeline_of html = map (\<lambda>lbl. \<lparr>label = lbl,
       date = (case search (rx_timeline lbl) html of Some m \<Rightarrow> grp m 1 | None \<Rightarrow> ''N/A'')\<rparr>)
     timelineLabels"


section \<open>Normalisation of profile URLs\<close>

subsection \<open>Characters, trimming, replacing\<close>

lemma of_char_lower: "is_upper c \<Longrightarrow> (of_char (lower_char c) :: nat) = of_char c + 32"
  unfolding lower_char_def is_upper_def Let_def
  by (auto simp: )

lemma lower_char_not_upper: "\<not> is_upper (lower_char c)"
proof (cases "is_upper c")
  case True
  then show ?thesis
    using of_char_lower[OF True] unfolding is_upper_def Let_def by arith
next
  case False
  then show ?thesis by (simp add: lower_char_def)
qed

lemma is_space_lower_char: "is_space (lower_char c) = is_space c"
proof (cases "is_upper c")
  case True
  then show ?thesis
    using of_char_lower[OF True] unfolding is_upper_def is_space_def Let_def by arith
next
  case False
  then show ?thesis by (simp add: lower_char_def)
qed

lemma toLowerCase_idem: "toLowerCase (toLowerCase s) = toLowerCase s"
  by (simp add: toLowerCase_def lower_char_def lower_char_not_upper[unfolded lower_char_def])

lemma toLowerCase_fix: "\<forall>c\<in>set s. \<not> is_upper c \<Longrightarrow> toLowerCase s = s"
  by (induction s) (auto simp: toLowerCase_def lower_char_def)

lemma trim_fix: "\<forall>c\<in>set s. \<not> is_space c \<Longrightarrow> trim s = s"
proof (cases s)
  case Nil
  then show ?thesis by (simp add: trim_def)
next
  case (Cons c t)
  assume a: "\<forall>c\<in>set s. \<not> is_space c"
  then have 1: "dropWhile is_space s = s" using Cons by simp
  have "rev s \<noteq> []" using Cons by simp
  then obtain d u where r: "rev s = d # u" by (cases "rev s") auto
  then have "d \<in> set s" by (metis list.set_intros(1) set_rev)
  then have "dropWhile is_space (rev s) = rev s" using a r by simp
  then show ?thesis using 1 by (simp add: trim_def)
qed

lemma set_trim: "set (trim s) \<subseteq> set s"
  unfolding trim_def by (metis set_dropWhileD set_rev subsetI)

lemma set_replace_str: "set (replace_str p r s) \<subseteq> set s \<union> set r"
  by (induction s) (auto dest: in_set_dropD)

lemma replace_str_absent: "\<not> sublist p s \<Longrightarrow> replace_str p r s = s"
  by (induction s) (auto simp: sublist_Cons_right)

lemma replace_str_prefix: "replace_str p r (p @ t) = r @ t"
  by (cases "p @ t") (auto simp: prefix_def, metis)

subsection \<open>The pattern of the trailing slashes\<close>

lemma strip_slashes_Cons:
  "strip_slashes (c # t) = (if \<forall>x\<in>set (c # t). x = CHR ''/'' then [] else c # strip_slashes t)"
  by (auto simp: strip_slashes_def dropWhile_append dropWhile_eq_Nil_conv)

lemma in_ms_trailing:
  "(cs', s') \<in> set (ms rx_trailing_slashes ([], s)) \<longleftrightarrow>
     cs' = [] \<and> s' = [] \<and> s \<noteq> [] \<and> (\<forall>x\<in>set s. x = CHR ''/'')"
  unfolding rx_trailing_slashes_def seqs.simps
  apply (simp add: in_ms)
  apply (cases s)
  apply auto
  done

lemma ms_trailing:
  "ms rx_trailing_slashes ([], s) = [] \<or> (\<exists>xs. ms rx_trailing_slashes ([], s) = ([], []) # xs)"
proof (cases "ms rx_trailing_slashes ([], s)")
  case Nil
  then show ?thesis by simp
next
  case (Cons a list)
  obtain cs' s' where a: "a = (cs', s')" by (cases a)
  then have "(cs', s') \<in> set (ms rx_trailing_slashes ([], s))" using Cons by simp
  then have "a = ([], [])" using a in_ms_trailing by blast
  then show ?thesis using Cons by simp
qed

lemma ms_Nil_iff: "ms r st = [] \<longleftrightarrow> (\<forall>cs' s'. (cs', s') \<notin> set (ms r st))"
  by (cases "ms r st") auto

lemma ms_trailing_Nil:
  "ms rx_trailing_slashes ([], s) = [] \<longleftrightarrow> \<not> (s \<noteq> [] \<and> (\<forall>x\<in>set s. x = CHR ''/''))"
  unfolding ms_Nil_iff in_ms_trailing by blast

lemma search_trailing_Nil: "search rx_trailing_slashes [] = None"
proof -
  have "ms rx_trailing_slashes ([], []) = []" using ms_trailing_Nil[of "[]"] by simp
  then show ?thesis by (simp add: search.simps)
qed

lemma search_trailing_Cons:
  "search rx_trailing_slashes (c # t) =
     (if \<forall>x\<in>set (c # t). x = CHR ''/'' then Some \<lparr>pre = [], caps = [], rest = []\<rparr>
      else map_option (\<lambda>m. m\<lparr>pre := c # pre m\<rparr>) (search rx_trailing_slashes t))"
proof (cases "\<forall>x\<in>set (c # t). x = CHR ''/''")
  case True
  then have "ms rx_trailing_slashes ([], c # t) \<noteq> []" using ms_trailing_Nil[of "c # t"] by blast
  then obtain xs where "ms rx_trailing_slashes ([], c # t) = ([], []) # xs"
    using ms_trailing[of "c # t"] by blast
  then show ?thesis using True by (simp add: search.simps)
next
  case False
  then have "ms rx_trailing_slashes ([], c # t) = []" using ms_trailing_Nil[of "c # t"] by blast
  then show ?thesis unfolding if_not_P[OF False] by (simp add: search.simps)
qed

lemma replace_trailing: "replace_rx rx_trailing_slashes [] s = strip_slashes s"
proof (induction s)
  case Nil
  then show ?case by (simp add: replace_rx_def search_trailing_Nil strip_slashes_def)
next
  case (Cons c t)
  show ?case
  proof (cases "\<forall>x\<in>set (c # t). x = CHR ''/''")
    case True
    then show ?thesis
      by (simp only: replace_rx_def search_trailing_Cons strip_slashes_Cons) simp
  next
    case False
    have "replace_rx rx_trailing_slashes [] (c # t) = c # replace_rx rx_trailing_slashes [] t"
      using False by (simp only: replace_rx_def search_trailing_Cons)
        (cases "search rx_trailing_slashes t"; simp)
    then show ?thesis using False Cons by (simp only: strip_slashes_Cons) simp
  qed
qed

lemma prefix_strip_slashes: "prefix (strip_slashes s) s"
  unfolding strip_slashes_def
  by (metis suffix_dropWhile suffix_to_prefix rev_rev_ident)

lemma set_strip_slashes: "set (strip_slashes s) \<subseteq> set s"
  using prefix_strip_slashes set_mono_prefix by blast

lemma strip_slashes_no_slash: "\<not> suffix ''/'' (strip_slashes s)"
proof
  assume "suffix ''/'' (strip_slashes s)"
  then obtain a where a: "strip_slashes s = a @ ''/''" by (auto simp: suffix_def)
  define d where "d = dropWhile (\<lambda>c. c = CHR ''/'') (rev s)"
  have "rev d = a @ ''/''" using a by (simp add: strip_slashes_def d_def)
  then have "rev (rev d) = rev (a @ ''/'')" by simp
  then have "d = CHR ''/'' # rev a" by simp
  then have "d \<noteq> []" "hd d = CHR ''/''" by simp_all
  then show False unfolding d_def using hd_dropWhile[of "\<lambda>c. c = CHR ''/''" "rev s"] by simp
qed

lemma strip_slashes_idem: "strip_slashes (strip_slashes s) = strip_slashes s"
proof (induction s)
  case Nil
  then show ?case by (simp add: strip_slashes_def)
next
  case (Cons c t)
  show ?case
  proof (cases "\<forall>x\<in>set (c # t). x = CHR ''/''")
    case True
    then show ?thesis by (simp add: strip_slashes_Cons) (simp add: strip_slashes_def)
  next
    case False
    have "\<not> (\<forall>x\<in>set (c # strip_slashes t). x = CHR ''/'')"
    proof
      assume a: "\<forall>x\<in>set (c # strip_slashes t). x = CHR ''/''"
      show False
      proof (cases "strip_slashes t")
        case Nil
        then have "\<forall>x\<in>set t. x = CHR ''/''"
          unfolding strip_slashes_def by (simp add: dropWhile_eq_Nil_conv)
        with a False show False by simp
      next
        case (Cons d u)
        then have "suffix ''/'' (strip_slashes t)"
          using a by (metis last_in_set list.distinct(1) list.set_intros(2) suffix_def append_butlast_last_id)
        then show False using strip_slashes_no_slash by blast
      qed
    qed
    then show ?thesis using False Cons
      by (simp only: strip_slashes_Cons if_False)
  qed
qed

lemma strip_slashes_append:
  "a \<noteq> [] \<Longrightarrow> last a \<noteq> CHR ''/'' \<Longrightarrow> strip_slashes (a @ b) = a @ strip_slashes b"
proof (induction a)
  case Nil
  then show ?case by simp
next
  case (Cons c a)
  have "last (c # a) \<in> set (c # a @ b)" using Cons.prems by (metis append_Cons in_set_conv_decomp last_in_set list.distinct(1) Un_iff set_append)
  then have nall: "\<not> (\<forall>x\<in>set (c # a @ b). x = CHR ''/'')" using Cons.prems by blast
  show ?case
  proof (cases a)
    case Nil
    then show ?thesis using nall Cons.prems by (simp add: strip_slashes_Cons)
  next
    case (Cons d e)
    then have "strip_slashes (a @ b) = a @ strip_slashes b" using Cons.IH Cons.prems by simp
    then show ?thesis using nall by (simp add: strip_slashes_Cons)
  qed
qed

lemma toLowerCase_normalize: "toLowerCase (normalizeLinkedinUrl u) = normalizeLinkedinUrl u"
proof -
  have low: "\<forall>c\<in>set (trim (toLowerCase u)). \<not> is_upper c"
    using set_trim[of "toLowerCase u"] by (auto simp: toLowerCase_def lower_char_not_upper)
  have r: "\<forall>c\<in>set ''https://linkedin.com''. \<not> is_upper c"
    by code_simp
  have step: "\<And>p s. \<forall>c\<in>set s. \<not> is_upper c \<Longrightarrow>
      \<forall>c\<in>set (replace_str p ''https://linkedin.com'' s). \<not> is_upper c"
    using set_replace_str r by blast
  have "\<forall>c\<in>set (normalizeLinkedinUrl u). \<not> is_upper c"
    unfolding normalizeLinkedinUrl_def Let_def replace_trailing
    using set_strip_slashes step[OF step[OF step[OF low]]] by blast
  then show ?thesis by (rule toLowerCase_fix)
qed


subsection \<open>The three replacements of scheme and host\<close>

lemma normalize_unfold:
  "normalizeLinkedinUrl u = strip_slashes (hosts_replaced (trim (toLowerCase u)))"
  by (simp add: normalizeLinkedinUrl_def Let_def replace_trailing hosts_replaced_def p1_def p2_def p3_def hc_def)

lemma keep_canonical:
  "replace_str p1 r (hc @ t) = hc @ replace_str p1 r t"
  "replace_str p2 r (hc @ t) = hc @ replace_str p2 r t"
  "replace_str p3 r (hc @ t) = hc @ replace_str p3 r t"
  by (simp_all add: p1_def p2_def p3_def hc_def)

lemma keep_http_www: "replace_str p1 r (p2 @ t) = p2 @ replace_str p1 r t"
  by (simp add: p1_def p2_def)

lemma keep_http:
  "replace_str p1 r (p3 @ t) = p3 @ replace_str p1 r t"
  "replace_str p2 r (p3 @ t) = p3 @ replace_str p2 r t"
  by (simp_all add: p1_def p2_def p3_def)

lemma strip_canonical: "strip_slashes (hc @ t) = hc @ strip_slashes t"
  by (rule strip_slashes_append) (simp_all add: hc_def)

lemma nohost_canonical: "nohost t \<Longrightarrow> nohost (hc @ t)"
  by (simp add: nohost_def p1_def p2_def p3_def hc_def sublist_Cons_right)

lemma nohost_prefix: "nohost s \<Longrightarrow> prefix t s \<Longrightarrow> nohost t"
  unfolding nohost_def by (meson prefix_imp_sublist sublist_order.order_trans)

lemma nohost_suffix: "nohost s \<Longrightarrow> suffix t s \<Longrightarrow> nohost t"
  unfolding nohost_def by (meson suffix_imp_sublist sublist_order.order_trans)

lemma nohost_replace:
  assumes "nohost s"
  shows "replace_str p1 r s = s" "replace_str p2 r s = s" "replace_str p3 r s = s"
  using assms by (simp_all add: nohost_def replace_str_absent)

lemma hosts_replaced_prefix:
  assumes "p \<in> {p1, p2, p3, hc}" "prefix p w"
  shows "\<exists>t. hosts_replaced w = hc @ t"
proof -
  obtain t where t: "w = p @ t" using assms(2) by (auto simp: prefix_def)
  from assms(1) have "p = p1 \<or> p = p2 \<or> p = p3 \<or> p = hc" by simp
  then show ?thesis
  proof (elim disjE)
    assume "p = p1"
    then show ?thesis unfolding hosts_replaced_def t by (simp add: replace_str_prefix keep_canonical)
  next
    assume "p = p2"
    then show ?thesis unfolding hosts_replaced_def t
      by (simp add: replace_str_prefix keep_canonical keep_http_www)
  next
    assume "p = p3"
    then show ?thesis unfolding hosts_replaced_def t
      by (simp add: replace_str_prefix keep_canonical keep_http)
  next
    assume "p = hc"
    then show ?thesis unfolding hosts_replaced_def t by (simp add: keep_canonical)
  qed
qed

lemma normalize_host:
  assumes "p \<in> {p1, p2, p3, hc}" "prefix p (trim (toLowerCase u))"
  shows "prefix hc (normalizeLinkedinUrl u)"
  using hosts_replaced_prefix[OF assms] unfolding normalize_unfold
  by (auto simp: strip_canonical)

lemma nohost_Cons:
  "\<not> prefix p1 s \<Longrightarrow> \<not> prefix p2 s \<Longrightarrow> \<not> prefix p3 s \<Longrightarrow> nohost (tl s) \<Longrightarrow> nohost s"
  by (cases s) (auto simp: nohost_def sublist_Cons_right)

lemma nohost_replaced:
  assumes "nohost (tl w)"
  shows "nohost (hosts_replaced w) \<and> set (hosts_replaced w) \<subseteq> set w \<union> set hc"
proof -
  have sub: "\<And>p t. w = p @ t \<Longrightarrow> p \<noteq> [] \<Longrightarrow> nohost t"
  proof -
    fix p t assume "w = p @ t" "p \<noteq> ([]::string)"
    then have "suffix t (tl w)" by (cases p) (auto simp: suffix_def)
    then show "nohost t" using assms nohost_suffix by blast
  qed
  let ?G = "nohost (hosts_replaced w) \<and> set (hosts_replaced w) \<subseteq> set w \<union> set hc"
  have fin: "\<And>p t. w = p @ t \<Longrightarrow> hosts_replaced w = hc @ t \<Longrightarrow> nohost t \<Longrightarrow> ?G"
  proof -
    fix p t assume w: "w = p @ t" and e: "hosts_replaced w = hc @ t" and nt: "nohost t"
    have n: "nohost (hc @ t)" using nt by (rule nohost_canonical)
    have s: "set (hc @ t) \<subseteq> set w \<union> set hc"
      by (simp only: w set_append) blast
    show ?G unfolding e by (rule conjI[OF n s])
  qed
  have ne: "p1 \<noteq> []" "p2 \<noteq> []" "p3 \<noteq> []" by (simp_all add: p1_def p2_def p3_def)
  show ?thesis
  proof (cases "prefix p1 w")
    case True
    then obtain t where t: "w = p1 @ t" by (auto simp: prefix_def)
    then have nt: "nohost t" using sub ne by blast
    have "hosts_replaced w = hc @ t"
      unfolding hosts_replaced_def t by (simp add: replace_str_prefix keep_canonical nohost_replace[OF nt])
    then show ?thesis using fin t nt by blast
  next
    case n1: False
    show ?thesis
    proof (cases "prefix p2 w")
      case True
      then obtain t where t: "w = p2 @ t" by (auto simp: prefix_def)
      then have nt: "nohost t" using sub ne by blast
      have "hosts_replaced w = hc @ t"
        unfolding hosts_replaced_def t
        by (simp add: replace_str_prefix keep_canonical keep_http_www nohost_replace[OF nt])
      then show ?thesis using fin t nt by blast
    next
      case n2: False
      show ?thesis
      proof (cases "prefix p3 w")
        case True
        then obtain t where t: "w = p3 @ t" by (auto simp: prefix_def)
        then have nt: "nohost t" using sub ne by blast
        have "hosts_replaced w = hc @ t"
          unfolding hosts_replaced_def t
          by (simp add: replace_str_prefix keep_canonical keep_http nohost_replace[OF nt])
        then show ?thesis using fin t nt by blast
      next
        case n3: False
        have n: "nohost w" using nohost_Cons[OF n1 n2 n3 assms] .
        have "hosts_replaced w = w" unfolding hosts_replaced_def by (simp add: nohost_replace[OF n])
        then show ?thesis using n by simp
      qed
    qed
  qed
qed

lemma normalize_fixed:
  assumes "\<forall>c\<in>set v. \<not> is_space c" "toLowerCase v = v" "nohost v" "strip_slashes v = v"
  shows "normalizeLinkedinUrl v = v"
  unfolding normalize_unfold assms(2) trim_fix[OF assms(1)] hosts_replaced_def
  by (simp add: nohost_replace[OF assms(3)] assms(4))

lemma normalize_idem:
  assumes ws: "\<forall>c\<in>set u. \<not> is_space c"
    and nh: "nohost (tl (toLowerCase u))"
  shows "normalizeLinkedinUrl (normalizeLinkedinUrl u) = normalizeLinkedinUrl u"
proof -
  let ?w = "toLowerCase u"
  have wsw: "\<forall>c\<in>set ?w. \<not> is_space c" using ws by (simp add: toLowerCase_def is_space_lower_char)
  have tw: "trim ?w = ?w" using wsw by (rule trim_fix)
  define x where "x = hosts_replaced ?w"
  from nohost_replaced[OF nh] have
    nx: "nohost x" and sx: "set x \<subseteq> set ?w \<union> set hc"
    unfolding x_def by blast+
  have v: "normalizeLinkedinUrl u = strip_slashes x"
    unfolding normalize_unfold tw x_def ..
  have "\<forall>c\<in>set hc. \<not> is_space c" by (simp add: is_space_def hc_def)
  then have "\<forall>c\<in>set x. \<not> is_space c" using sx wsw by blast
  then have 1: "\<forall>c\<in>set (strip_slashes x). \<not> is_space c" using set_strip_slashes by blast
  have 2: "toLowerCase (strip_slashes x) = strip_slashes x" using toLowerCase_normalize[of u] v by simp
  have 3: "nohost (strip_slashes x)" using nx prefix_strip_slashes nohost_prefix by blast
  show ?thesis unfolding v using normalize_fixed[OF 1 2 3 strip_slashes_idem] .
qed

subsection \<open>The claims on normalizeLinkedinUrl\<close>

text \<open>
  C7 (as amended). Normalising twice gives what normalising once gives, for every \<open>u\<close> that
  holds no white space and in which none of the three scheme-and-host texts that the
  function rewrites (\<open>https://www.linkedin.com\<close>, \<open>http://www.linkedin.com\<close>,
  \<open>http://linkedin.com\<close>, compared in lower case) occurs after the first character;
  and the two URLs of the specification normalise to \<open>https://linkedin.com/in/jane-doe-12345\<close>.
\<close>

theorem normalizeLinkedinUrl_idempotent:
  "(list_all (\<lambda>c. \<not> is_space c) u
      \<and> \<not> sublist ''https://www.linkedin.com'' (tl (toLowerCase u))
      \<and> \<not> sublist ''http://www.linkedin.com'' (tl (toLowerCase u))
      \<and> \<not> sublist ''http://linkedin.com'' (tl (toLowerCase u))
     \<longrightarrow> normalizeLinkedinUrl (normalizeLinkedinUrl u) = normalizeLinkedinUrl u)
   \<and> normalizeLinkedinUrl ''https://WWW.LinkedIn.com/in/Jane-Doe-12345/''
       = ''https://linkedin.com/in/jane-doe-12345''
   \<and> normalizeLinkedinUrl ''http://linkedin.com/in/jane-doe-12345''
       = ''https://linkedin.com/in/jane-doe-12345''"
proof (intro conjI impI)
  assume a: "list_all (\<lambda>c. \<not> is_space c) u
      \<and> \<not> sublist ''https://www.linkedin.com'' (tl (toLowerCase u))
      \<and> \<not> sublist ''http://www.linkedin.com'' (tl (toLowerCase u))
      \<and> \<not> sublist ''http://linkedin.com'' (tl (toLowerCase u))"
  then have ws: "\<forall>c\<in>set u. \<not> is_space c" by (simp add: list_all_iff)
  have nh: "nohost (tl (toLowerCase u))" using a by (simp add: nohost_def p1_def p2_def p3_def)
  show "normalizeLinkedinUrl (normalizeLinkedinUrl u) = normalizeLinkedinUrl u"
    using ws nh by (rule normalize_idem)
next
  show "normalizeLinkedinUrl ''https://WWW.LinkedIn.com/in/Jane-Doe-12345/''
       = ''https://linkedin.com/in/jane-doe-12345''" by code_simp
next
  show "normalizeLinkedinUrl ''http://linkedin.com/in/jane-doe-12345''
       = ''https://linkedin.com/in/jane-doe-12345''" by code_simp
qed

theorem normalizeLinkedinUrl_idempotent_witness:
  "list_all (\<lambda>c. \<not> is_space c) ''https://WWW.LinkedIn.com/in/Jane-Doe-12345/''
   \<and> \<not> sublist ''https://www.linkedin.com'' (tl (toLowerCase ''https://WWW.LinkedIn.com/in/Jane-Doe-12345/''))
   \<and> \<not> sublist ''http://www.linkedin.com'' (tl (toLowerCase ''https://WWW.LinkedIn.com/in/Jane-Doe-12345/''))
   \<and> \<not> sublist ''http://linkedin.com'' (tl (toLowerCase ''https://WWW.LinkedIn.com/in/Jane-Doe-12345/''))
   \<and> normalizeLinkedinUrl (normalizeLinkedinUrl ''https://WWW.LinkedIn.com/in/Jane-Doe-12345/'')
       = normalizeLinkedinUrl ''https://WWW.LinkedIn.com/in/Jane-Doe-12345/''"
proof -
  have h: "list_all (\<lambda>c. \<not> is_space c) ''https://WWW.LinkedIn.com/in/Jane-Doe-12345/''
   \<and> \<not> sublist ''https://www.linkedin.com'' (tl (toLowerCase ''https://WWW.LinkedIn.com/in/Jane-Doe-12345/''))
   \<and> \<not> sublist ''http://www.linkedin.com'' (tl (toLowerCase ''https://WWW.LinkedIn.com/in/Jane-Doe-12345/''))
   \<and> \<not> sublist ''http://linkedin.com'' (tl (toLowerCase ''https://WWW.LinkedIn.com/in/Jane-Doe-12345/''))"
    by code_simp
  note t = normalizeLinkedinUrl_idempotent[of "''https://WWW.LinkedIn.com/in/Jane-Doe-12345/''",
      THEN conjunct1, THEN mp, OF h]
  show ?thesis using h t by (simp only: simp_thms)
qed

text \<open>
  C7, the claim as stated fails: a URL whose query repeats the scheme and host is
  rewritten once by each pass, so the second pass changes the result of the first.
\<close>

theorem normalizeLinkedinUrl_idempotent_counterexample:
  "normalizeLinkedinUrl ''http://www.linkedin.com/in/x?r=http://www.linkedin.com''
     = ''https://linkedin.com/in/x?r=http://www.linkedin.com''
   \<and> normalizeLinkedinUrl (normalizeLinkedinUrl ''http://www.linkedin.com/in/x?r=http://www.linkedin.com'')
     = ''https://linkedin.com/in/x?r=https://linkedin.com''
   \<and> normalizeLinkedinUrl (normalizeLinkedinUrl ''http://www.linkedin.com/in/x?r=http://www.linkedin.com'')
     \<noteq> normalizeLinkedinUrl ''http://www.linkedin.com/in/x?r=http://www.linkedin.com''"
  by code_simp

text \<open>
  C8, a defect of the code. The comment of normalizeLinkedinUrl says that it lowercases,
  strips \<open>www\<close>, ensures https and removes the trailing slash. The function rewrites three
  literal texts only (\<open>https://www.linkedin.com\<close>, \<open>http://www.linkedin.com\<close> and
  \<open>http://linkedin.com\<close>): a profile URL on a country subdomain keeps its http scheme,
  and a URL without a scheme keeps its \<open>www.\<close>.
\<close>

theorem normalizeLinkedinUrl_keeps_http:
  "normalizeLinkedinUrl ''http://uk.linkedin.com/in/jane-doe/'' = ''http://uk.linkedin.com/in/jane-doe''
   \<and> normalizeLinkedinUrl ''www.linkedin.com/in/jane-doe'' = ''www.linkedin.com/in/jane-doe''"
  by code_simp


section \<open>Searching with a pattern\<close>

lemma search_here:
  "ms r ([], s) = (cs, s') # xs \<Longrightarrow> search r s = Some \<lparr>pre = [], caps = cs, rest = s'\<rparr>"
  by (cases s) (simp_all add: search.simps)

lemma search_skip:
  "ms r ([], c # t) = [] \<Longrightarrow>
     search r (c # t) = map_option (\<lambda>m. m\<lparr>pre := c # pre m\<rparr>) (search r t)"
  by (simp add: search.simps)

lemma search_Nil_None: "ms r ([], []) = [] \<Longrightarrow> search r [] = None"
  by (simp add: search.simps)

lemma search_skip_many:
  assumes "\<forall>i < length a. ms r ([], drop i (a @ b)) = []"
  shows "search r (a @ b) = map_option (\<lambda>m. m\<lparr>pre := a @ pre m\<rparr>) (search r b)"
  using assms
proof (induction a)
  case Nil
  show ?case by (cases "search r b") simp_all
next
  case (Cons c a)
  have 0: "ms r ([], c # (a @ b)) = []" using Cons.prems by (metis drop0 length_greater_0_conv list.distinct(1) append_Cons)
  have "\<forall>i < length a. ms r ([], drop i (a @ b)) = []"
  proof (intro allI impI)
    fix i assume "i < length a"
    then have "Suc i < length (c # a)" by simp
    then have "ms r ([], drop (Suc i) ((c # a) @ b)) = []" using Cons.prems by blast
    then show "ms r ([], drop i (a @ b)) = []" by simp
  qed
  from Cons.IH[OF this] have ih: "search r (a @ b) = map_option (\<lambda>m. m\<lparr>pre := a @ pre m\<rparr>) (search r b)" .
  show ?case using search_skip[OF 0] ih by (cases "search r b") simp_all
qed

lemma search_None_iff:
  "search r s = None \<longleftrightarrow> (\<forall>i \<le> length s. ms r ([], drop i s) = [])"
proof (induction s)
  case Nil
  then show ?case by (auto simp: search.simps split: list.splits)
next
  case (Cons c t)
  show ?case
  proof (cases "ms r ([], c # t)")
    case Nil
    have "(\<forall>i \<le> length (c # t). ms r ([], drop i (c # t)) = []) \<longleftrightarrow>
          (\<forall>i \<le> length t. ms r ([], drop i t) = [])" (is "?A \<longleftrightarrow> ?B")
    proof
      assume a: ?A
      show ?B
      proof (intro allI impI)
        fix i assume "i \<le> length t"
        then have "ms r ([], drop (Suc i) (c # t)) = []" using a by (metis Suc_le_mono length_Cons)
        then show "ms r ([], drop i t) = []" by simp
      qed
    next
      assume b: ?B
      show ?A
      proof (intro allI impI)
        fix i assume i: "i \<le> length (c # t)"
        show "ms r ([], drop i (c # t)) = []"
        proof (cases i)
          case 0
          then show ?thesis using Nil by simp
        next
          case (Suc j)
          then show ?thesis using b i by simp
        qed
      qed
    qed
    then show ?thesis using Cons.IH search_skip[OF Nil] by simp
  next
    case (Cons a list)
    obtain cs s' where "a = (cs, s')" by (cases a)
    then have "search r (c # t) \<noteq> None" using search_here[of r "c # t" cs s' list] Cons by simp
    moreover have "\<not> (\<forall>i \<le> length (c # t). ms r ([], drop i (c # t)) = [])"
      using Cons by (metis drop0 le0 list.distinct(1))
    ultimately show ?thesis by blast
  qed
qed

lemma search_Some_leftmost:
  "search r s = Some m \<Longrightarrow>
     (\<exists>s2 xs. s = pre m @ s2 \<and> ms r ([], s2) = (caps m, rest m) # xs
        \<and> (\<forall>i < length (pre m). ms r ([], drop i s) = []))"
proof (induction s arbitrary: m)
  case Nil
  then show ?case by (auto simp: search.simps split: list.splits)
next
  case (Cons c t)
  show ?case
  proof (cases "ms r ([], c # t)")
    case Nil
    with Cons.prems obtain m' where m': "search r t = Some m'" "m = m'\<lparr>pre := c # pre m'\<rparr>"
      using search_skip[OF Nil] by auto
    from Cons.IH[OF m'(1)] obtain s2 xs where s2: "t = pre m' @ s2"
      "ms r ([], s2) = (caps m', rest m') # xs"
      "\<forall>i < length (pre m'). ms r ([], drop i t) = []" by blast
    have "\<forall>i < length (pre m). ms r ([], drop i (c # t)) = []"
    proof (intro allI impI)
      fix i assume i: "i < length (pre m)"
      show "ms r ([], drop i (c # t)) = []"
      proof (cases i)
        case 0
        then show ?thesis using Nil by simp
      next
        case (Suc j)
        then show ?thesis using s2(3) i m'(2) by simp
      qed
    qed
    then show ?thesis using s2 m'(2) by auto
  next
    case (Cons a list)
    obtain cs s' where a: "a = (cs, s')" by (cases a)
    then have "search r (c # t) = Some \<lparr>pre = [], caps = cs, rest = s'\<rparr>"
      using search_here[of r "c # t" cs s' list] Cons by simp
    then have "m = \<lparr>pre = [], caps = cs, rest = s'\<rparr>" using Cons.prems by simp
    then show ?thesis using Cons a by auto
  qed
qed

lemma search_found_at:
  assumes "\<forall>i < length a. ms r ([], drop i (a @ b)) = []" "ms r ([], b) = (cs, s') # xs"
  shows "search r (a @ b) = Some \<lparr>pre = a, caps = cs, rest = s'\<rparr>"
  using search_skip_many[OF assms(1)] search_here[OF assms(2)] by simp

subsection \<open>The counts a quantifier tries\<close>

lemma counts_greedy:
  "counts True m mx n =
     (let hi = (case mx of None \<Rightarrow> n | Some k \<Rightarrow> min k n)
      in if m \<le> hi then hi # rev [m ..< hi] else [])"
  by (simp add: counts_def Let_def)

lemma counts_lazy:
  "counts False m mx n =
     (let hi = (case mx of None \<Rightarrow> n | Some k \<Rightarrow> min k n)
      in if m \<le> hi then m # [Suc m ..< Suc hi] else [])"
  by (simp add: counts_def Let_def upt_conv_Cons)

lemma ms_Seq_Lit:
  "ms (Seq (Lit l) b) (cs, s) = (if prefix l s then ms b (cs, drop (length l) s) else [])"
  by (simp add: ms.simps)

lemma ms_Seq_Lit_append: "ms (Seq (Lit l) b) (cs, l @ s) = ms b (cs, s)"
  by (simp add: ms.simps)

lemma ms_Nil_set: "ms r st = [] \<longleftrightarrow> set (ms r st) = {}"
  by simp

subsection \<open>Case folding\<close>

lemma of_char_canon:
  "(of_char (canon c) :: nat) = (if is_lower c then of_char c - 32 else of_char c)"
  unfolding canon_def is_lower_def Let_def by auto

lemma canon_caseless:
  assumes "\<not> is_lower x" "\<not> is_upper x"
  shows "canon c = x \<longleftrightarrow> c = x"
proof
  assume e: "canon c = x"
  show "c = x"
  proof (cases "is_lower c")
    case True
    have "(of_char x :: nat) = of_char c - 32" using e of_char_canon[of c] True by simp
    then have "is_upper x" using True unfolding is_lower_def is_upper_def Let_def by arith
    then show ?thesis using assms by simp
  next
    case False
    then show ?thesis using e by (simp add: canon_def)
  qed
next
  assume "c = x"
  then show "canon c = x" using assms by (simp add: canon_def)
qed


lemma in_ms_LitI:
  "(cs', s') \<in> set (ms (LitI l) (cs, s)) \<longleftrightarrow>
     cs' = cs \<and> (\<exists>w. s = w @ s' \<and> map canon w = map canon l)"
proof -
  have "(length l \<le> length s \<and> map canon (take (length l) s) = map canon l \<and> s' = drop (length l) s)
      \<longleftrightarrow> (\<exists>w. s = w @ s' \<and> map canon w = map canon l)" (is "?L \<longleftrightarrow> ?R")
  proof
    assume ?L
    then have "s = take (length l) s @ s'" by auto
    with \<open>?L\<close> show ?R by metis
  next
    assume ?R
    then obtain w where w: "s = w @ s'" "map canon w = map canon l" by blast
    then have "length w = length l" using map_eq_imp_length_eq by blast
    then show ?L using w by auto
  qed
  then show ?thesis by (auto simp: ms.simps)
qed

lemma canon_dash: "map canon w = map canon ''-'' \<longleftrightarrow> w = ''-''"
proof -
  have c: "canon (CHR ''-'') = CHR ''-''" by (simp add: canon_def is_lower_def)
  have "\<And>x. canon x = CHR ''-'' \<longleftrightarrow> x = CHR ''-''"
    by (rule canon_caseless) (simp_all add: is_lower_def is_upper_def)
  then show ?thesis by (cases w) (simp_all add: c)
qed

lemma in_ms_LitI_dash:
  "(cs', s') \<in> set (ms (LitI ''-'') (cs, s)) \<longleftrightarrow> cs' = cs \<and> s = CHR ''-'' # s'"
  unfolding in_ms_LitI canon_dash by auto

lemma in_ms_id_suffix:
  "(cs', s') \<in> set (ms rx_id_suffix ([], s)) \<longleftrightarrow>
     cs' = [] \<and> s' = [] \<and>
     (\<exists>l ds. s = ''-'' @ l @ ds \<and> length l \<le> 1 \<and> (\<forall>c\<in>set l. is_letter c)
        \<and> 5 \<le> length ds \<and> (\<forall>c\<in>set ds. is_digit c))"
proof -
  have "(cs', s') \<in> set (ms rx_id_suffix ([], s)) \<longleftrightarrow>
     cs' = [] \<and> s' = [] \<and>
     (\<exists>l d1 d2. s = ''-'' @ l @ d1 @ d2 \<and> length l \<le> 1 \<and> (\<forall>c\<in>set l. is_letter c)
        \<and> 5 \<le> length d1 \<and> (\<forall>c\<in>set d1. is_digit c) \<and> (\<forall>c\<in>set d2. is_digit c))"
    unfolding rx_id_suffix_def seqs.simps in_ms_Seq in_ms_Rep in_ms_LitI_dash in_ms_Eoi
    by (simp, blast)
  also have "\<dots> \<longleftrightarrow> cs' = [] \<and> s' = [] \<and>
     (\<exists>l ds. s = ''-'' @ l @ ds \<and> length l \<le> 1 \<and> (\<forall>c\<in>set l. is_letter c)
        \<and> 5 \<le> length ds \<and> (\<forall>c\<in>set ds. is_digit c))" (is "?A \<longleftrightarrow> ?B")
  proof
    assume ?A
    then obtain l d1 d2 where "s = ''-'' @ l @ d1 @ d2" "length l \<le> 1" "\<forall>c\<in>set l. is_letter c"
        "5 \<le> length d1" "\<forall>c\<in>set d1. is_digit c" "\<forall>c\<in>set d2. is_digit c" by blast
    then have "s = ''-'' @ l @ (d1 @ d2) \<and> length l \<le> 1 \<and> (\<forall>c\<in>set l. is_letter c)
        \<and> 5 \<le> length (d1 @ d2) \<and> (\<forall>c\<in>set (d1 @ d2). is_digit c)" by auto
    then show ?B using \<open>?A\<close> by blast
  next
    assume ?B
    then obtain l ds where "s = ''-'' @ l @ ds" "length l \<le> 1" "\<forall>c\<in>set l. is_letter c"
        "5 \<le> length ds" "\<forall>c\<in>set ds. is_digit c" by blast
    then have "s = ''-'' @ l @ ds @ [] \<and> length l \<le> 1 \<and> (\<forall>c\<in>set l. is_letter c)
        \<and> 5 \<le> length ds \<and> (\<forall>c\<in>set ds. is_digit c) \<and> (\<forall>c\<in>set ([]::string). is_digit c)" by simp
    then show ?A using \<open>?B\<close> by blast
  qed
  finally show ?thesis .
qed


lemma not_letter_digit_dash: "\<not> is_letter (CHR ''-'')" "\<not> is_digit (CHR ''-'')"
  by (simp_all add: is_letter_def is_digit_def)

lemma letter_not_digit: "is_letter c \<Longrightarrow> \<not> is_digit c"
  unfolding is_letter_def is_digit_def Let_def by arith

lemma id_token_iff:
  "id_token t \<longleftrightarrow>
     (\<exists>l ds. t = l @ ds \<and> length l \<le> 1 \<and> (\<forall>c\<in>set l. is_letter c)
        \<and> 5 \<le> length ds \<and> (\<forall>c\<in>set ds. is_digit c))" (is "?L \<longleftrightarrow> ?R")
proof
  assume ?L
  then consider "5 \<le> length t \<and> list_all is_digit t"
    | c r where "t = c # r" "is_letter c" "5 \<le> length r" "list_all is_digit r"
    unfolding id_token_def by (cases t) auto
  then show ?R
  proof cases
    case 1
    then have "t = [] @ t \<and> length ([]::string) \<le> 1 \<and> (\<forall>c\<in>set ([]::string). is_letter c)
      \<and> 5 \<le> length t \<and> (\<forall>c\<in>set t. is_digit c)" by (simp add: list_all_iff)
    then show ?thesis by blast
  next
    case 2
    then have "t = [c] @ r \<and> length [c] \<le> 1 \<and> (\<forall>x\<in>set [c]. is_letter x)
      \<and> 5 \<le> length r \<and> (\<forall>c\<in>set r. is_digit c)" by (simp add: list_all_iff)
    then show ?thesis by blast
  qed
next
  assume ?R
  then obtain l ds where h: "t = l @ ds" "length l \<le> 1" "\<forall>c\<in>set l. is_letter c"
    "5 \<le> length ds" "\<forall>c\<in>set ds. is_digit c" by blast
  show ?L
  proof (cases l)
    case Nil
    then show ?thesis using h by (simp add: id_token_def list_all_iff)
  next
    case (Cons c l')
    then have "l = [c]" using h(2) by simp
    then show ?thesis using h by (simp add: id_token_def list_all_iff)
  qed
qed

lemma id_token_no_dash: "id_token t \<Longrightarrow> CHR ''-'' \<notin> set t"
  unfolding id_token_iff using not_letter_digit_dash by auto

lemma id_token_digits: "id_token t \<Longrightarrow> 5 \<le> length t \<and> (\<exists>c\<in>set t. is_digit c)"
proof -
  assume "id_token t"
  then obtain l ds where h: "t = l @ ds" "5 \<le> length ds" "\<forall>c\<in>set ds. is_digit c"
    unfolding id_token_iff by blast
  then obtain d where "d \<in> set ds" by (cases ds) auto
  then show ?thesis using h by auto
qed

lemma id_suffix_match_iff:
  "ms rx_id_suffix ([], s) \<noteq> [] \<longleftrightarrow> (\<exists>t. s = CHR ''-'' # t \<and> id_token t)"
  unfolding ms_Nil_iff in_ms_id_suffix id_token_iff by auto

lemma id_suffix_match_head:
  "ms rx_id_suffix ([], s) \<noteq> [] \<Longrightarrow> \<exists>xs. ms rx_id_suffix ([], s) = ([], []) # xs"
proof -
  assume "ms rx_id_suffix ([], s) \<noteq> []"
  then obtain a xs where c: "ms rx_id_suffix ([], s) = a # xs" by (cases "ms rx_id_suffix ([], s)") auto
  obtain cs' s' where a: "a = (cs', s')" by (cases a)
  then have "(cs', s') \<in> set (ms rx_id_suffix ([], s))" using c by simp
  then have "a = ([], [])" using a in_ms_id_suffix by blast
  then show ?thesis using c by simp
qed

lemma id_suffix_none_before:
  assumes "CHR ''-'' \<notin> set tok" "i < length base"
  shows "ms rx_id_suffix ([], drop i (base @ CHR ''-'' # tok)) = []"
proof (rule ccontr)
  assume "ms rx_id_suffix ([], drop i (base @ CHR ''-'' # tok)) \<noteq> []"
  then obtain t where t: "drop i (base @ CHR ''-'' # tok) = CHR ''-'' # t" "id_token t"
    using id_suffix_match_iff by blast
  have "drop i (base @ CHR ''-'' # tok) = drop i base @ CHR ''-'' # tok" using assms(2) by simp
  moreover obtain c r where "drop i base = c # r" using assms(2) by (cases "drop i base") auto
  ultimately have "t = r @ CHR ''-'' # tok" using t(1) by simp
  then have "CHR ''-'' \<in> set t" by simp
  then show False using id_token_no_dash[OF t(2)] by simp
qed

lemma id_suffix_replace_strip:
  assumes "id_token tok"
  shows "replace_rx rx_id_suffix [] (base @ CHR ''-'' # tok) = base"
proof -
  have nd: "CHR ''-'' \<notin> set tok" using assms by (rule id_token_no_dash)
  have 1: "\<forall>i < length base. ms rx_id_suffix ([], drop i (base @ CHR ''-'' # tok)) = []"
    using id_suffix_none_before[OF nd] by blast
  have "ms rx_id_suffix ([], CHR ''-'' # tok) \<noteq> []" using assms id_suffix_match_iff by blast
  then obtain xs where 2: "ms rx_id_suffix ([], CHR ''-'' # tok) = ([], []) # xs"
    using id_suffix_match_head by blast
  show ?thesis using search_found_at[OF 1 2] by (simp add: replace_rx_def)
qed

lemma id_suffix_replace_none:
  assumes "CHR ''-'' \<notin> set slug
     \<or> (slug = base @ CHR ''-'' # tok \<and> CHR ''-'' \<notin> set tok \<and> \<not> id_token tok)"
  shows "replace_rx rx_id_suffix [] slug = slug"
proof -
  have "\<forall>i \<le> length slug. ms rx_id_suffix ([], drop i slug) = []"
  proof (intro allI impI, rule ccontr)
    fix i assume i: "i \<le> length slug" and "ms rx_id_suffix ([], drop i slug) \<noteq> []"
    then obtain t where t: "drop i slug = CHR ''-'' # t" "id_token t"
      using id_suffix_match_iff by blast
    then have in_slug: "CHR ''-'' \<in> set slug" by (metis in_set_dropD list.set_intros(1))
    with assms have s: "slug = base @ CHR ''-'' # tok" "CHR ''-'' \<notin> set tok" "\<not> id_token tok" by auto
    consider "i < length base" | "i = length base" | "i > length base" by arith
    then show False
    proof cases
      case 1
      then show ?thesis using id_suffix_none_before[OF s(2) 1, of ] s(1) \<open>ms rx_id_suffix ([], drop i slug) \<noteq> []\<close> by simp
    next
      case 2
      then have "drop i slug = CHR ''-'' # tok" using s(1) by simp
      then show ?thesis using t s(3) by simp
    next
      case 3
      then have "drop i slug = drop (i - Suc (length base)) tok" using s(1) by (simp add: drop_Cons')
      then have "CHR ''-'' \<in> set tok" using t(1) by (metis in_set_dropD list.set_intros(1))
      then show ?thesis using s(2) by simp
    qed
  qed
  then have "search rx_id_suffix slug = None" using search_None_iff by blast
  then show ?thesis by (simp add: replace_rx_def)
qed


lemma split_on_not_Nil: "split_on d s \<noteq> []"
  by (induction s) (auto split: list.splits)

lemma split_on_append:
  "split_on d (a @ d # t) = split_on d a @ split_on d t"
proof (induction a)
  case Nil
  then show ?case by simp
next
  case (Cons c a)
  obtain p ps where "split_on d a = p # ps" using split_on_not_Nil by (cases "split_on d a") auto
  then show ?case using Cons by simp
qed

lemma split_on_absent: "d \<notin> set s \<Longrightarrow> split_on d s = [s]"
  by (induction s) auto

lemma ms_in_slug_no: "\<not> prefix ''/in/'' s \<Longrightarrow> ms rx_in_slug ([], s) = []"
  unfolding rx_in_slug_def seqs.simps by (simp add: ms_Seq_Lit)

lemma ms_Grp_Rep_greedy:
  assumes "m \<le> length (takeWhile p t)"
  shows "\<exists>xs. ms (Grp (Rep True m None p)) (cs, t) = (cs @ [takeWhile p t], dropWhile p t) # xs"
proof -
  let ?n = "length (takeWhile p t)"
  have c: "counts True m None ?n = ?n # rev [m ..< ?n]" using assms by (simp add: counts_greedy Let_def)
  have "take ?n t = takeWhile p t" by (rule takeWhile_eq_take[symmetric])
  moreover have "drop ?n t = dropWhile p t" by (rule dropWhile_eq_drop[symmetric])
  moreover have "length t - length (dropWhile p t) = ?n"
    by (metis add_diff_cancel_right' length_append takeWhile_dropWhile_id)
  ultimately show ?thesis by (simp add: ms.simps c)
qed

lemma ms_in_slug_hit:
  assumes "slug \<noteq> []" "\<forall>c\<in>set slug. c \<noteq> CHR ''/'' \<and> c \<noteq> CHR ''?''"
    "post = [] \<or> hd post = CHR ''/'' \<or> hd post = CHR ''?''"
  shows "\<exists>xs. ms rx_in_slug ([], ''/in/'' @ slug @ post) = ([slug], post) # xs"
proof -
  let ?p = "\<lambda>c. c \<noteq> CHR ''/'' \<and> c \<noteq> CHR ''?''"
  have tw: "takeWhile ?p (slug @ post) = slug"
  proof (cases post)
    case Nil
    then show ?thesis using assms(2) by simp
  next
    case (Cons c r)
    then have "\<not> ?p c" using assms(3) by auto
    then show ?thesis using assms(2) Cons by (simp add: takeWhile_tail)
  qed
  then have dw: "dropWhile ?p (slug @ post) = post"
    using takeWhile_dropWhile_id[of ?p "slug @ post"] by (simp only: same_append_eq)
  have "1 \<le> length (takeWhile ?p (slug @ post))" unfolding tw using assms(1) by (cases slug) simp_all
  from ms_Grp_Rep_greedy[OF this, of "[]"] obtain xs where
    "ms (Grp (Rep True 1 None ?p)) ([], slug @ post) = ([slug], post) # xs" using tw dw by auto
  then show ?thesis unfolding rx_in_slug_def seqs.simps
    using ms_Seq_Lit_append[of "''/in/''" _ "[]" "slug @ post"] by simp
qed

lemma no_earlier_occurrence:
  assumes "\<not> sublist l (a @ butlast l)" "i < length a"
  shows "\<not> prefix l (drop i (a @ l @ b))"
proof
  assume p: "prefix l (drop i (a @ l @ b))"
  have d: "drop i (a @ l @ b) = drop i a @ l @ b" using assms(2) by simp
  have ne: "l \<noteq> []" using assms(1) by auto
  have len: "length l \<le> length (drop i a @ butlast l)" using assms(2) ne by simp
  have "l @ b = (butlast l @ [last l]) @ b" using ne by simp
  then have "drop i a @ l @ b = (drop i a @ butlast l) @ (last l # b)" by simp
  then have "prefix l ((drop i a @ butlast l) @ (last l # b))" using p unfolding d by (simp only:)
  then have "prefix l (drop i a @ butlast l)" using len
    by (metis prefix_length_prefix prefixI append.assoc)
  then have "sublist l (take i a @ drop i a @ butlast l)"
    by (metis prefix_imp_sublist sublist_append_leftI append.assoc sublist_order.order_trans suffix_imp_sublist suffixI)
  then show False using assms(1) by (metis append.assoc append_take_drop_id)
qed

lemma search_in_slug:
  assumes "\<not> sublist ''/in/'' (before @ ''/in'')" "slug \<noteq> []"
    "\<forall>c\<in>set slug. c \<noteq> CHR ''/'' \<and> c \<noteq> CHR ''?''"
    "post = [] \<or> hd post = CHR ''/'' \<or> hd post = CHR ''?''"
  shows "search rx_in_slug (before @ ''/in/'' @ slug @ post)
           = Some \<lparr>pre = before, caps = [slug], rest = post\<rparr>"
proof -
  have b: "butlast ''/in/'' = ''/in''" by simp
  have 1: "\<forall>i < length before. ms rx_in_slug ([], drop i (before @ ''/in/'' @ slug @ post)) = []"
    using no_earlier_occurrence[of "''/in/''" before _ "slug @ post"] assms(1) ms_in_slug_no
    unfolding b by blast
  from ms_in_slug_hit[OF assms(2,3,4)] obtain xs where
    2: "ms rx_in_slug ([], ''/in/'' @ slug @ post) = ([slug], post) # xs" by blast
  show ?thesis using search_found_at[OF 1 2] .
qed

lemma search_in_slug_none:
  assumes "\<not> sublist ''/in/'' url"
  shows "search rx_in_slug url = None"
proof -
  have "\<forall>i \<le> length url. ms rx_in_slug ([], drop i url) = []"
  proof (intro allI impI)
    fix i
    have "\<not> prefix ''/in/'' (drop i url)"
      using assms by (metis prefix_imp_sublist sublist_order.order_trans suffix_drop suffix_imp_sublist)
    then show "ms rx_in_slug ([], drop i url) = []" by (rule ms_in_slug_no)
  qed
  then show ?thesis using search_None_iff by blast
qed

lemma names_of_slug:
  assumes "\<not> sublist ''/in/'' (before @ ''/in'')" "slug \<noteq> []"
    "\<forall>c\<in>set slug. c \<noteq> CHR ''/'' \<and> c \<noteq> CHR ''?''"
    "post = [] \<or> hd post = CHR ''/'' \<or> hd post = CHR ''?''"
  shows "namesFromLinkedinUrl (before @ ''/in/'' @ slug @ post)
           = filter long_part (split_on (CHR ''-'') (replace_rx rx_id_suffix [] slug))"
  unfolding namesFromLinkedinUrl_def search_in_slug[OF assms]
  by (simp add: grp_def long_part_def[abs_def])


text \<open>
  C4 (as amended). For a URL \<open>before @ "/in/" @ slug @ post\<close> in which this is the first
  \<open>/in/\<close>, \<open>slug\<close> is not empty and holds no \<open>/\<close> and no \<open>?\<close>, and \<open>post\<close> is empty or
  starts with one of them: when the slug ends with a hyphen and a token of at most one
  letter and five or more digits, that suffix is stripped and the rest is split on
  hyphens; when the slug has no hyphen, or the token after its last hyphen holds no digit
  or has fewer than five characters, the whole slug is split on hyphens; parts of
  length at most 1 are discarded. A URL without \<open>/in/\<close> gives no name. In particular
  \<open>/in/kaidi-cao-398131117\<close> gives \<open>kaidi, cao\<close> and \<open>/in/anshulsaha\<close> gives \<open>anshulsaha\<close>.
\<close>

theorem namesFromLinkedinUrl_tokens:
  "(\<not> sublist ''/in/'' (before @ ''/in'') \<and> slug \<noteq> []
      \<and> list_all (\<lambda>c. c \<noteq> CHR ''/'' \<and> c \<noteq> CHR ''?'') slug
      \<and> (post = [] \<or> hd post = CHR ''/'' \<or> hd post = CHR ''?'')
    \<longrightarrow>
      (slug = base @ ''-'' @ tok \<and> id_token tok
         \<longrightarrow> namesFromLinkedinUrl (before @ ''/in/'' @ slug @ post)
               = filter long_part (split_on (CHR ''-'') base))
      \<and> (CHR ''-'' \<notin> set slug
          \<or> (slug = base @ ''-'' @ tok \<and> CHR ''-'' \<notin> set tok
              \<and> (list_all (\<lambda>c. \<not> is_digit c) tok \<or> length tok < 5))
         \<longrightarrow> namesFromLinkedinUrl (before @ ''/in/'' @ slug @ post)
               = filter long_part (split_on (CHR ''-'') slug)))
   \<and> (\<not> sublist ''/in/'' url \<longrightarrow> namesFromLinkedinUrl url = [])
   \<and> namesFromLinkedinUrl ''/in/kaidi-cao-398131117'' = [''kaidi'', ''cao'']
   \<and> namesFromLinkedinUrl ''/in/anshulsaha'' = [''anshulsaha'']"
proof (intro conjI impI)
  assume a: "\<not> sublist ''/in/'' (before @ ''/in'') \<and> slug \<noteq> []
      \<and> list_all (\<lambda>c. c \<noteq> CHR ''/'' \<and> c \<noteq> CHR ''?'') slug
      \<and> (post = [] \<or> hd post = CHR ''/'' \<or> hd post = CHR ''?'')"
  then have n: "namesFromLinkedinUrl (before @ ''/in/'' @ slug @ post)
           = filter long_part (split_on (CHR ''-'') (replace_rx rx_id_suffix [] slug))"
    using names_of_slug[of before slug post] by (simp add: list_all_iff)
  {
    assume b: "slug = base @ ''-'' @ tok \<and> id_token tok"
    then have "replace_rx rx_id_suffix [] slug = base"
      using id_suffix_replace_strip[of tok base] by simp
    then show "namesFromLinkedinUrl (before @ ''/in/'' @ slug @ post)
               = filter long_part (split_on (CHR ''-'') base)" using n by simp
  }
  {
    assume c: "CHR ''-'' \<notin> set slug
          \<or> (slug = base @ ''-'' @ tok \<and> CHR ''-'' \<notin> set tok
              \<and> (list_all (\<lambda>c. \<not> is_digit c) tok \<or> length tok < 5))"
    have "list_all (\<lambda>c. \<not> is_digit c) tok \<or> length tok < 5 \<Longrightarrow> \<not> id_token tok"
      using id_token_digits[of tok] by (auto simp: list_all_iff)
    then have "CHR ''-'' \<notin> set slug
     \<or> (slug = base @ CHR ''-'' # tok \<and> CHR ''-'' \<notin> set tok \<and> \<not> id_token tok)"
      using c by auto
    then have "replace_rx rx_id_suffix [] slug = slug" by (rule id_suffix_replace_none)
    then show "namesFromLinkedinUrl (before @ ''/in/'' @ slug @ post)
               = filter long_part (split_on (CHR ''-'') slug)" using n by simp
  }
next
  assume "\<not> sublist ''/in/'' url"
  then show "namesFromLinkedinUrl url = []"
    by (simp add: namesFromLinkedinUrl_def search_in_slug_none)
next
  show "namesFromLinkedinUrl ''/in/kaidi-cao-398131117'' = [''kaidi'', ''cao'']" by code_simp
next
  show "namesFromLinkedinUrl ''/in/anshulsaha'' = [''anshulsaha'']" by code_simp
qed

theorem namesFromLinkedinUrl_tokens_witness:
  "\<not> sublist ''/in/'' (''https://www.linkedin.com'' @ ''/in'')
   \<and> list_all (\<lambda>c. c \<noteq> CHR ''/'' \<and> c \<noteq> CHR ''?'') ''kaidi-cao-398131117''
   \<and> id_token ''398131117''
   \<and> namesFromLinkedinUrl (''https://www.linkedin.com'' @ ''/in/'' @ ''kaidi-cao-398131117'' @ ''/details'')
       = filter long_part (split_on (CHR ''-'') ''kaidi-cao'')
   \<and> filter long_part (split_on (CHR ''-'') ''kaidi-cao'') = [''kaidi'', ''cao'']"
proof -
  have h: "\<not> sublist ''/in/'' (''https://www.linkedin.com'' @ ''/in'') \<and> ''kaidi-cao-398131117'' \<noteq> []
      \<and> list_all (\<lambda>c. c \<noteq> CHR ''/'' \<and> c \<noteq> CHR ''?'') ''kaidi-cao-398131117''
      \<and> (''/details'' = [] \<or> hd ''/details'' = CHR ''/'' \<or> hd ''/details'' = CHR ''?'')"
    by code_simp
  have k: "''kaidi-cao-398131117'' = ''kaidi-cao'' @ ''-'' @ ''398131117'' \<and> id_token ''398131117''"
    by code_simp
  have v: "filter long_part (split_on (CHR ''-'') ''kaidi-cao'') = [''kaidi'', ''cao'']"
    by code_simp
  note t = namesFromLinkedinUrl_tokens[of "''https://www.linkedin.com''" "''kaidi-cao-398131117''"
      "''/details''" "''kaidi-cao''" "''398131117''",
      THEN conjunct1, THEN mp, OF h, THEN conjunct1, THEN mp, OF k]
  show ?thesis using h k v t by (simp only: simp_thms)
qed

text \<open>
  C4, the claim as stated fails. \<open>tokensFromSlug_spec\<close> is the derivation as the claim
  words it. On a profile URL with a further path segment the code takes the segment after
  \<open>/in/\<close>, not the final one; a last token of five letters is not stripped by the code;
  and a bare slug, with no \<open>/in/\<close> before it, gives no name.
\<close>

theorem namesFromLinkedinUrl_tokens_counterexample:
  "namesFromLinkedinUrl ''https://www.linkedin.com/in/jane-doe/details/skills'' = [''jane'', ''doe'']
   \<and> tokensFromSlug_spec ''https://www.linkedin.com/in/jane-doe/details/skills'' = [''skills'']
   \<and> namesFromLinkedinUrl ''https://www.linkedin.com/in/john-smith'' = [''john'', ''smith'']
   \<and> tokensFromSlug_spec ''https://www.linkedin.com/in/john-smith'' = [''john'']
   \<and> namesFromLinkedinUrl ''kaidi-cao-398131117'' = []
   \<and> tokensFromSlug_spec ''kaidi-cao-398131117'' = [''kaidi'', ''cao'']"
  by code_simp


section \<open>The token of a form\<close>












subsection \<open>A search, read through the shape it looks for\<close>



subsection \<open>Decoding\<close>





















section \<open>The candidate page\<close>

subsection \<open>What a capture is\<close>

lemma ms_suffix: "(cs', s') \<in> set (ms r (cs, s)) \<Longrightarrow> suffix s' s"
proof (induction r arbitrary: cs s cs' s')
  case (Lit l)
  then show ?case unfolding in_ms_Lit by (auto simp: suffix_def)
next
  case (LitI l)
  then show ?case unfolding in_ms_LitI by (auto simp: suffix_def)
next
  case (Rep g m mx p)
  then show ?case unfolding in_ms_Rep by (auto simp: suffix_def)
next
  case (Seq a b)
  from Seq.prems obtain c1 s1 where 1: "(c1, s1) \<in> set (ms a (cs, s))"
    and 2: "(cs', s') \<in> set (ms b (c1, s1))" unfolding in_ms_Seq by blast
  show ?case using Seq.IH(1)[OF 1] Seq.IH(2)[OF 2] by (rule suffix_order.order_trans[rotated])
next
  case (Alt a b)
  then show ?case unfolding in_ms_Alt by blast
next
  case (Grp a)
  then show ?case unfolding in_ms_Grp by blast
next
  case Eoi
  then show ?case unfolding in_ms_Eoi by simp
qed

lemma in_ms_Grp_word:
  "(cs', s') \<in> set (ms (Grp a) (cs, s)) \<longleftrightarrow>
     (\<exists>cs'' w. (cs'', s') \<in> set (ms a (cs, s)) \<and> s = w @ s' \<and> cs' = cs'' @ [w])"
proof
  assume "(cs', s') \<in> set (ms (Grp a) (cs, s))"
  then obtain cs'' where c: "(cs'', s') \<in> set (ms a (cs, s))"
    "cs' = cs'' @ [take (length s - length s') s]" unfolding in_ms_Grp by blast
  from ms_suffix[OF c(1)] obtain w where w: "s = w @ s'" by (auto simp: suffix_def)
  then have "take (length s - length s') s = w" by simp
  then show "\<exists>cs'' w. (cs'', s') \<in> set (ms a (cs, s)) \<and> s = w @ s' \<and> cs' = cs'' @ [w]"
    using c w by blast
next
  assume "\<exists>cs'' w. (cs'', s') \<in> set (ms a (cs, s)) \<and> s = w @ s' \<and> cs' = cs'' @ [w]"
  then obtain cs'' w where c: "(cs'', s') \<in> set (ms a (cs, s))" "s = w @ s'" "cs' = cs'' @ [w]"
    by blast
  then have "take (length s - length s') s = w" by simp
  then show "(cs', s') \<in> set (ms (Grp a) (cs, s))" unfolding in_ms_Grp using c by blast
qed

lemma caps_sublist:
  "(cs', s') \<in> set (ms r (cs, s)) \<Longrightarrow> \<forall>c\<in>set cs. sublist c S \<Longrightarrow> sublist s S
     \<Longrightarrow> \<forall>c\<in>set cs'. sublist c S"
proof (induction r arbitrary: cs s cs' s')
  case (Lit l)
  then show ?case unfolding in_ms_Lit by auto
next
  case (LitI l)
  then show ?case unfolding in_ms_LitI by auto
next
  case (Rep g m mx p)
  then show ?case unfolding in_ms_Rep by auto
next
  case (Seq a b)
  from Seq.prems(1) obtain c1 s1 where 1: "(c1, s1) \<in> set (ms a (cs, s))"
    and 2: "(cs', s') \<in> set (ms b (c1, s1))" unfolding in_ms_Seq by blast
  have "sublist s1 S" using ms_suffix[OF 1] Seq.prems(3)
    by (meson sublist_order.order_trans suffix_imp_sublist)
  then show ?case using Seq.IH(1)[OF 1 Seq.prems(2,3)] Seq.IH(2)[OF 2] by blast
next
  case (Alt a b)
  then show ?case unfolding in_ms_Alt by blast
next
  case (Grp a)
  from Grp.prems(1) obtain cs'' w where c: "(cs'', s') \<in> set (ms a (cs, s))" "s = w @ s'"
    "cs' = cs'' @ [w]" unfolding in_ms_Grp_word by blast
  have "sublist w S" using c(2) Grp.prems(3)
    by (meson prefixI prefix_imp_sublist sublist_order.order_trans)
  then show ?case using Grp.IH[OF c(1) Grp.prems(2,3)] c(3) by auto
next
  case Eoi
  then show ?case unfolding in_ms_Eoi by simp
qed

lemma search_caps_sublist:
  assumes "search r s = Some m"
  shows "\<forall>c\<in>set (caps m). sublist c s" "sublist (rest m) s"
proof -
  from search_Some[OF assms] obtain s2 where s2: "s = pre m @ s2" "(caps m, rest m) \<in> set (ms r ([], s2))"
    by blast
  have ss: "sublist s2 s" using s2(1) by (simp add: suffix_imp_sublist suffixI)
  show "\<forall>c\<in>set (caps m). sublist c s" using caps_sublist[OF s2(2) _ ss] by simp
  show "sublist (rest m) s" using ms_suffix[OF s2(2)] ss
    by (meson sublist_order.order_trans suffix_imp_sublist)
qed

lemma grp_sublist:
  assumes "search r s = Some m" "grp m k \<noteq> []"
  shows "sublist (grp m k) s"
proof -
  have "grp m k \<in> set (caps m)" using assms(2)
    unfolding grp_def by (auto split: list.splits) (metis in_set_dropD list.set_intros(1))
  then show ?thesis using search_caps_sublist(1)[OF assms(1)] by blast
qed


subsection \<open>The dates of the timeline\<close>

lemma in_ms_date:
  "(cs', s') \<in> set (ms rx_date (cs, s)) \<longleftrightarrow>
     cs' = cs \<and>
     (\<exists>a b c. s = a @ ''/'' @ b @ ''/'' @ c @ s'
        \<and> (\<forall>x\<in>set a. is_digit x) \<and> 1 \<le> length a \<and> length a \<le> 2
        \<and> (\<forall>x\<in>set b. is_digit x) \<and> 1 \<le> length b \<and> length b \<le> 2
        \<and> (\<forall>x\<in>set c. is_digit x) \<and> 2 \<le> length c \<and> length c \<le> 4)"
  unfolding rx_date_def seqs.simps in_ms_Seq in_ms_Rep in_ms_Lit
  by (simp, blast)

lemma not_digit_slash: "\<not> is_digit (CHR ''/'')"
  by (simp add: is_digit_def)

lemma date_token_shape:
  assumes "\<forall>x\<in>set a. is_digit x" "1 \<le> length a" "length a \<le> 2"
    "\<forall>x\<in>set b. is_digit x" "1 \<le> length b" "length b \<le> 2"
    "\<forall>x\<in>set c. is_digit x" "2 \<le> length c" "length c \<le> 4"
  shows "date_token (a @ ''/'' @ b @ ''/'' @ c)"
proof -
  have n: "CHR ''/'' \<notin> set a" "CHR ''/'' \<notin> set b" "CHR ''/'' \<notin> set c"
    using assms(1,4,7) not_digit_slash by blast+
  have "split_on (CHR ''/'') (a @ CHR ''/'' # (b @ CHR ''/'' # c)) = [a, b, c]"
    unfolding split_on_append using n by (simp add: split_on_absent)
  then show ?thesis using assms by (simp add: date_token_def list_all_iff)
qed

lemma timeline_match:
  assumes "(cs', s') \<in> set (ms (rx_timeline lbl) ([], s))"
  shows "\<exists>d. cs' = [d] \<and> date_token d"
proof -
  from assms obtain c1 s1 c2 s2 where
    g: "(cs', s') \<in> set (ms (Grp rx_date) (c2, s2))"
    and 1: "(c1, s1) \<in> set (ms (LitI lbl) ([], s))"
    and 2: "(c2, s2) \<in> set (ms (Rep False 0 (Some 300) any_char) (c1, s1))"
    unfolding rx_timeline_def seqs.simps in_ms_Seq by blast
  have c2: "c2 = []" using 1 2 unfolding in_ms_LitI in_ms_Rep by simp
  from g obtain cs'' w where w: "(cs'', s') \<in> set (ms rx_date (c2, s2))" "s2 = w @ s'"
    "cs' = cs'' @ [w]" unfolding in_ms_Grp_word by blast
  from w(1) obtain a b c where d: "cs'' = c2" "s2 = a @ ''/'' @ b @ ''/'' @ c @ s'"
    "\<forall>x\<in>set a. is_digit x" "1 \<le> length a" "length a \<le> 2"
    "\<forall>x\<in>set b. is_digit x" "1 \<le> length b" "length b \<le> 2"
    "\<forall>x\<in>set c. is_digit x" "2 \<le> length c" "length c \<le> 4"
    unfolding in_ms_date by blast
  have "w = a @ ''/'' @ b @ ''/'' @ c" using w(2) d(2) by simp
  then have "date_token w" using date_token_shape[OF d(3-11)] by simp
  then show ?thesis using w(3) d(1) c2 by simp
qed

lemma timeline_date:
  assumes "search (rx_timeline lbl) html = Some m"
  shows "date_token (grp m 1) \<and> sublist (grp m 1) html"
proof -
  from search_Some[OF assms] obtain s2 where "(caps m, rest m) \<in> set (ms (rx_timeline lbl) ([], s2))"
    by blast
  from timeline_match[OF this] obtain d where d: "caps m = [d]" "date_token d" by blast
  then have g: "grp m 1 = d" by (simp add: grp_def)
  have "sublist d html" using search_caps_sublist(1)[OF assms] d(1) by simp
  then show ?thesis using g d(2) by simp
qed

lemma timeline_of_labels: "map label (timeline_of html) = timelineLabels"
  by (simp add: timeline_of_def comp_def)

lemma timeline_of_dates:
  "list_all (\<lambda>e. date e = ''N/A'' \<or> (date_token (date e) \<and> sublist (date e) html)) (timeline_of html)"
  unfolding timeline_of_def list_all_iff
  using timeline_date by (auto split: option.splits)

lemma step_other:
  "k \<noteq> ''id'' \<Longrightarrow> map_of (page_id finalUrl data) k = map_of data k"
  "k \<noteq> ''name'' \<Longrightarrow> map_of (page_name html data) k = map_of data k"
  "k \<noteq> ''sourced_by'' \<Longrightarrow> map_of (page_sourced_by html data) k = map_of data k"
  "k \<noteq> ''current_owner'' \<Longrightarrow> map_of (page_current_owner html data) k = map_of data k"
  "k \<noteq> ''location'' \<Longrightarrow> map_of (page_location html data) k = map_of data k"
  "k \<noteq> ''timeline'' \<Longrightarrow> map_of (page_timeline html data) k = map_of data k"
  "k \<noteq> ''linkedin_url'' \<Longrightarrow> map_of (page_linkedin_url html data) k = map_of data k"
  by (simp_all add: page_id_def page_name_def page_sourced_by_def page_current_owner_def
      page_location_def page_timeline_def page_linkedin_url_def update_conv' Let_def
      split: option.splits)

lemma step_own:
  "map_of (page_id finalUrl data) ''id''
     = Some (Str (case search rx_candidate_id finalUrl of Some m \<Rightarrow> grp m 1 | None \<Rightarrow> []))"
  "map_of (page_timeline html data) ''timeline'' = Some (Timeline (timeline_of html))"
  by (simp_all add: page_id_def page_timeline_def timeline_of_def update_conv')

lemma parse_timeline:
  "map_of (parseCandidatePage html finalUrl) ''timeline'' = Some (Timeline (timeline_of html))"
  unfolding parseCandidatePage_def Let_def
  by (simp add: update_conv' step_other step_own)

lemma parse_id:
  "map_of (parseCandidatePage html finalUrl) ''id''
     = Some (Str (case search rx_candidate_id finalUrl of Some m \<Rightarrow> grp m 1 | None \<Rightarrow> []))"
  unfolding parseCandidatePage_def Let_def
  by (simp add: update_conv' step_other step_own)

lemma parse_url:
  "map_of (parseCandidatePage html finalUrl) ''url'' = Some (Str finalUrl)"
  unfolding parseCandidatePage_def Let_def
  by (simp add: update_conv' step_other step_own)

lemma parse_submissions:
  "map_of (parseCandidatePage html finalUrl) ''submissions''
     = Some (Submissions (parseSubmissionsTable html))"
  unfolding parseCandidatePage_def Let_def
  by (simp add: update_conv' step_other step_own)


subsection \<open>The page that holds a heading only\<close>

lemma minimal_page_searches:
  "search rx_h1 ''<h1>Jane Doe</h1>'' = Some \<lparr>pre = [], caps = [''Jane Doe''], rest = []\<rparr>"
  "search rx_sourced_by ''<h1>Jane Doe</h1>'' = None"
  "search rx_current_owner ''<h1>Jane Doe</h1>'' = None"
  "search rx_location ''<h1>Jane Doe</h1>'' = None"
  "search rx_linkedin_href ''<h1>Jane Doe</h1>'' = None"
  "strip_tags_trim ''Jane Doe'' = ''Jane Doe''"
  "parseSubmissionsTable ''<h1>Jane Doe</h1>'' = []"
  by code_simp+

lemma minimal_page_timeline:
  "timeline_of ''<h1>Jane Doe</h1>'' =
     [\<lparr>label = ''Sourced'', date = ''N/A''\<rparr>, \<lparr>label = ''First Engaged'', date = ''N/A''\<rparr>,
      \<lparr>label = ''Handed Off'', date = ''N/A''\<rparr>, \<lparr>label = ''First screened'', date = ''N/A''\<rparr>,
      \<lparr>label = ''First Submitted'', date = ''N/A''\<rparr>,
      \<lparr>label = ''Most Recently Submitted'', date = ''N/A''\<rparr>]"
  by code_simp

lemma minimal_page:
  "parseCandidatePage ''<h1>Jane Doe</h1>'' finalUrl =
     [(''id'', Str (case search rx_candidate_id finalUrl of Some m \<Rightarrow> grp m 1 | None \<Rightarrow> [])),
      (''url'', Str finalUrl), (''name'', Str ''Jane Doe''),
      (''timeline'', Timeline (timeline_of ''<h1>Jane Doe</h1>'')),
      (''submissions'', Submissions [])]"
  unfolding parseCandidatePage_def Let_def page_id_def page_name_def page_sourced_by_def
    page_current_owner_def page_location_def page_timeline_def page_linkedin_url_def
    minimal_page_searches timeline_of_def[symmetric]
  by (simp add: grp_def minimal_page_searches)

text \<open>
  C3. For every page and URL the record holds, under \<open>timeline\<close>, exactly six entries, with
  the six milestone labels in their fixed order; the date of each entry is \<open>N/A\<close> or a
  text of the page of the shape one or two digits, a slash, one or two digits, a slash,
  two to four digits. On the page \<open><h1>Jane Doe</h1>\<close> the name is \<open>Jane Doe\<close>, the
  properties \<open>sourced_by\<close>, \<open>current_owner\<close>, \<open>location\<close> and \<open>linkedin_url\<close> are absent, and
  the six dates are \<open>N/A\<close>.
\<close>

theorem parseCandidatePage_timeline:
  "(\<exists>tl. map_of (parseCandidatePage html finalUrl) ''timeline'' = Some (Timeline tl)
      \<and> length tl = 6
      \<and> map label tl = [''Sourced'', ''First Engaged'', ''Handed Off'', ''First screened'',
                         ''First Submitted'', ''Most Recently Submitted'']
      \<and> list_all (\<lambda>e. date e = ''N/A'' \<or> (date_token (date e) \<and> sublist (date e) html)) tl)
   \<and> map_of (parseCandidatePage ''<h1>Jane Doe</h1>'' finalUrl) ''name'' = Some (Str ''Jane Doe'')
   \<and> map_of (parseCandidatePage ''<h1>Jane Doe</h1>'' finalUrl) ''sourced_by'' = None
   \<and> map_of (parseCandidatePage ''<h1>Jane Doe</h1>'' finalUrl) ''current_owner'' = None
   \<and> map_of (parseCandidatePage ''<h1>Jane Doe</h1>'' finalUrl) ''location'' = None
   \<and> map_of (parseCandidatePage ''<h1>Jane Doe</h1>'' finalUrl) ''linkedin_url'' = None
   \<and> map_of (parseCandidatePage ''<h1>Jane Doe</h1>'' finalUrl) ''timeline''
       = Some (Timeline
           [\<lparr>label = ''Sourced'', date = ''N/A''\<rparr>, \<lparr>label = ''First Engaged'', date = ''N/A''\<rparr>,
            \<lparr>label = ''Handed Off'', date = ''N/A''\<rparr>, \<lparr>label = ''First screened'', date = ''N/A''\<rparr>,
            \<lparr>label = ''First Submitted'', date = ''N/A''\<rparr>,
            \<lparr>label = ''Most Recently Submitted'', date = ''N/A''\<rparr>])"
proof (intro conjI)
  show "\<exists>tl. map_of (parseCandidatePage html finalUrl) ''timeline'' = Some (Timeline tl)
      \<and> length tl = 6
      \<and> map label tl = [''Sourced'', ''First Engaged'', ''Handed Off'', ''First screened'',
                         ''First Submitted'', ''Most Recently Submitted'']
      \<and> list_all (\<lambda>e. date e = ''N/A'' \<or> (date_token (date e) \<and> sublist (date e) html)) tl"
  proof (intro exI conjI)
    show "map_of (parseCandidatePage html finalUrl) ''timeline'' = Some (Timeline (timeline_of html))"
      by (rule parse_timeline)
    show "length (timeline_of html) = 6" by (simp add: timeline_of_def timelineLabels_def)
    show "map label (timeline_of html) = [''Sourced'', ''First Engaged'', ''Handed Off'', ''First screened'',
                         ''First Submitted'', ''Most Recently Submitted'']"
      unfolding timeline_of_labels by (simp add: timelineLabels_def)
    show "list_all (\<lambda>e. date e = ''N/A'' \<or> (date_token (date e) \<and> sublist (date e) html)) (timeline_of html)"
      by (rule timeline_of_dates)
  qed
qed (simp_all add: minimal_page minimal_page_timeline)

theorem parseCandidatePage_timeline_witness:
  "map_of (parseCandidatePage ''<h1>Jane Doe</h1>'' ''https://parker.candidatelabs.com/candidates/42'')
      ''name'' = Some (Str ''Jane Doe'')
   \<and> map_of (parseCandidatePage ''<h1>Jane Doe</h1>'' ''https://parker.candidatelabs.com/candidates/42'')
      ''location'' = None"
  using parseCandidatePage_timeline[of "''<h1>Jane Doe</h1>''" "''https://parker.candidatelabs.com/candidates/42''"]
  by (simp only: simp_thms)

end
